theory Spec2Isabelle
  imports Main "HOL-Library.Sublist" "HOL-Library.Char_ord" "HOL-Library.List_Lexorder"
begin

section \<open>The task worker (ai\_worker.py) and the QA report generator (qa\_agent.py)\<close>

text \<open>
  Both scripts are sequential programs around external collaborators: the file system, the
  codex process, the build script and the language model. The embedding keeps the control
  flow of the source and makes the collaborators explicit:
  \<^item> the four queue directories are a function from the directory to its listing;
  \<^item> what an external process answers is read from an environment, indexed by the number
    of the call;
  \<^item> every exception the library calls of the source can raise (\<open>rename\<close>,
    \<open>read_text\<close>, \<open>subprocess.run\<close>) is an \<open>Inl\<close> result that carries the state in
    which it was raised;
  \<^item> what the worker does to the outside (prompts sent, builds started, sleeps) is appended
    to a trace.
  A Python \<open>str\<close> is a \<open>string\<close>, one \<open>char\<close> for each character. Console output
  (\<open>print\<close>) and the unused \<open>task_start_time\<close> are left out.
\<close>

subsection \<open>Strings\<close>

text \<open>Python's \<open>xs[i:]\<close>: a negative start counts from the end, and both are clamped.\<close>

definition slice_from :: "int \<Rightarrow> 'a list \<Rightarrow> 'a list" where
  "slice_from i xs =
     (let n = int (length xs);
          j = (if i < 0 then max 0 (n + i) else min i n)
      in drop (nat j) xs)"

subsection \<open>Prompts\<close>

text \<open>The f-string of \<open>main_loop\<close>, step 1.\<close>

definition impl_prompt :: "string \<Rightarrow> string" where
  \<open>impl_prompt task_content =
     ''\<newline>Android Kotlin project.\<newline>\<newline>Implement this task:\<newline>'' @
     task_content @
     ''\<newline>\<newline>Rules:\<newline>- Production-ready code\<newline>- Minimal safe changes\<newline>'' @
     ''- Do not break existing features\<newline>- Modify build.gradle ONLY if required\<newline>''\<close>

text \<open>The f-string of \<open>fix_build_with_codex\<close>: the text before the log and the text after it.\<close>

definition fix_prompt_head :: string where
  \<open>fix_prompt_head =
     ''\<newline>Android Kotlin project build/deploy failed.\<newline>\<newline>'' @
     ''Fix ONLY the real compile/runtime/build errors from the log below.\<newline>\<newline>'' @
     ''Rules:\<newline>- Minimal safe changes\<newline>- Do NOT refactor unrelated code\<newline>'' @
     ''- Do NOT break existing features\<newline>'' @
     ''- Modify build.gradle ONLY if error explicitly requires dependency/plugin fix\<newline>\<newline>'' @
     ''ERROR LOG:\<newline>''\<close>

definition fix_prompt_tail :: string where
  \<open>fix_prompt_tail = ''\<newline>''\<close>

definition trimmed_log :: "string \<Rightarrow> string" where
  "trimmed_log error_log = slice_from (- 1000) error_log"

definition fix_prompt :: "string \<Rightarrow> string" where
  "fix_prompt error_log = fix_prompt_head @ trimmed_log error_log @ fix_prompt_tail"

text \<open>
  A prompt is a fix prompt when it opens with the first line of the fix template. The
  implementation prompt differs from it at the 24th character, whatever the task says.
\<close>

definition is_fix_prompt :: "string \<Rightarrow> bool" where
  \<open>is_fix_prompt p =
     (take 44 p = ''\<newline>Android Kotlin project build/deploy failed.'')\<close>

subsection \<open>The task store\<close>

text \<open>
  The four directories \<open>PENDING_DIR\<close>, \<open>IN_PROGRESS_DIR\<close>, \<open>DONE_DIR\<close> and
  \<open>FAILED_DIR\<close>. In the model they always exist, which is what \<open>ensure_task_dirs\<close>
  establishes before the loop starts.
\<close>

datatype queue = Pending | InProgress | Done | Failed

text \<open>
  A directory entry is a file that \<open>read_text(encoding="utf-8")\<close> decodes to a text, or
  something it cannot read (bytes that are not UTF-8, a subdirectory, no permission).
\<close>

datatype node = Text string | Unreadable

text \<open>
  A listing holds the entries of a directory under their names, in the order in which the
  operating system enumerates them. A path is a directory and a name (\<open>target_dir / name\<close>).
  Names are compared as they are written.
\<close>

type_synonym listing = "(string \<times> node) list"
type_synonym store = "queue \<Rightarrow> listing"
type_synonym path = "queue \<times> string"

datatype error = FileNotFoundError | FileExistsError | ReadError | ProcessError | ApiError

text \<open>
  The environment: whether \<open>rename\<close> replaces an existing target (POSIX) or raises
  \<open>FileExistsError\<close> (Windows); the return code of the n-th codex process and the return
  code, standard output and standard error of the n-th build process, \<open>None\<close> when
  \<open>subprocess.run\<close> raises instead of returning.
\<close>

record env =
  rename_replaces :: bool
  codex_exit :: "nat \<Rightarrow> int option"
  build_result :: "nat \<Rightarrow> (int \<times> string \<times> string) option"

datatype event = CodexRun string | BuildRun | Sleep nat

record world =
  fs :: store
  codex_calls :: nat
  build_calls :: nat
  trace :: "event list"

definition ensure_task_dirs :: "world \<Rightarrow> world" where
  "ensure_task_dirs w = w"

text \<open>\<open>fnmatch\<close> of a name against \<open>*.md\<close>: the name ends in \<open>.md\<close>.\<close>

definition matches_md :: "string \<Rightarrow> bool" where
  "matches_md name = (drop (length name - 3) name = ''.md'')"

definition glob_md :: "queue \<Rightarrow> store \<Rightarrow> path list" where
  "glob_md d st = map (\<lambda>e. (d, fst e)) (filter (\<lambda>e. matches_md (fst e)) (st d))"

text \<open>
  \<open>sorted\<close> orders the paths of one directory by their names, character by character,
  and is stable.
\<close>

definition get_next_task_file :: "store \<Rightarrow> path option" where
  "get_next_task_file st =
     (let files = sort_key snd (glob_md Pending st)
      in case files of [] \<Rightarrow> None | f # _ \<Rightarrow> Some f)"

definition remove_name :: "string \<Rightarrow> listing \<Rightarrow> listing" where
  "remove_name name l = filter (\<lambda>e. fst e \<noteq> name) l"

text \<open>
  \<open>Path.rename\<close>: raises when the source is missing, and when the target exists and the
  platform does not replace it; renaming a file to itself changes nothing.
\<close>

definition rename :: "env \<Rightarrow> path \<Rightarrow> path \<Rightarrow> world \<Rightarrow> (error \<times> world) + world" where
  "rename e src dst w =
     (case map_of (fs w (fst src)) (snd src) of
        None \<Rightarrow> Inl (FileNotFoundError, w)
      | Some f \<Rightarrow>
          if dst = src then Inr w
          else if map_of (fs w (fst dst)) (snd dst) \<noteq> None \<and> \<not> rename_replaces e
          then Inl (FileExistsError, w)
          else
            let st1 = (fs w)(fst src := remove_name (snd src) (fs w (fst src)));
                st2 = st1(fst dst := remove_name (snd dst) (st1 (fst dst)) @ [(snd dst, f)])
            in Inr (w\<lparr>fs := st2\<rparr>))"

definition move_task :: "env \<Rightarrow> path \<Rightarrow> queue \<Rightarrow> world \<Rightarrow> (error \<times> world) + (path \<times> world)" where
  "move_task e src_path target_dir w =
     (let target_path = (target_dir, snd src_path)
      in case rename e src_path target_path w of
           Inl x \<Rightarrow> Inl x
         | Inr w' \<Rightarrow> Inr (target_path, w'))"

definition read_task :: "path \<Rightarrow> world \<Rightarrow> (error \<times> world) + string" where
  "read_task task_path w =
     (case map_of (fs w (fst task_path)) (snd task_path) of
        None \<Rightarrow> Inl (FileNotFoundError, w)
      | Some Unreadable \<Rightarrow> Inl (ReadError, w)
      | Some (Text s) \<Rightarrow> Inr s)"

subsection \<open>The external processes\<close>

definition run_codex :: "env \<Rightarrow> string \<Rightarrow> world \<Rightarrow> (error \<times> world) + (bool \<times> world)" where
  "run_codex e prompt w =
     (case codex_exit e (codex_calls w) of
        None \<Rightarrow> Inl (ProcessError, w)
      | Some returncode \<Rightarrow>
          let w' = w\<lparr>codex_calls := Suc (codex_calls w), trace := trace w @ [CodexRun prompt]\<rparr>
          in if returncode \<noteq> 0 then Inr (False, w') else Inr (True, w'))"

definition build_project :: "env \<Rightarrow> world \<Rightarrow> (error \<times> world) + ((int \<times> string) \<times> world)" where
  "build_project e w =
     (case build_result e (build_calls w) of
        None \<Rightarrow> Inl (ProcessError, w)
      | Some (returncode, out, err) \<Rightarrow>
          Inr ((returncode, out @ err),
               w\<lparr>build_calls := Suc (build_calls w), trace := trace w @ [BuildRun]\<rparr>))"

definition fix_build_with_codex :: "env \<Rightarrow> string \<Rightarrow> world \<Rightarrow> (error \<times> world) + (bool \<times> world)" where
  "fix_build_with_codex e error_log w = run_codex e (fix_prompt error_log) w"

definition sleep :: "nat \<Rightarrow> world \<Rightarrow> world" where
  "sleep seconds w = w\<lparr>trace := trace w @ [Sleep seconds]\<rparr>"

subsection \<open>The worker loop\<close>

text \<open>
  The \<open>for attempt in range(5)\<close> loop of \<open>main_loop\<close>, by the number of attempts that are
  left; the result is \<open>build_success\<close>. Both \<open>break\<close>s leave the loop with its value.
\<close>

fun build_fix_loop :: "env \<Rightarrow> nat \<Rightarrow> world \<Rightarrow> (error \<times> world) + (bool \<times> world)" where
  "build_fix_loop e 0 w = Inr (False, w)"
| "build_fix_loop e (Suc attempts) w =
     (case build_project e w of
        Inl x \<Rightarrow> Inl x
      | Inr ((code, output), w1) \<Rightarrow>
          if code = 0 then Inr (True, w1)
          else
            (case fix_build_with_codex e output w1 of
               Inl x \<Rightarrow> Inl x
             | Inr (fix_success, w2) \<Rightarrow>
                 if \<not> fix_success then Inr (False, w2)
                 else build_fix_loop e attempts (sleep 2 w2)))"

text \<open>One pass through the body of \<open>while True\<close>.\<close>

definition iteration :: "env \<Rightarrow> world \<Rightarrow> (error \<times> world) + world" where
  "iteration e w =
     (case get_next_task_file (fs w) of
        None \<Rightarrow> Inr (sleep 300 w)
      | Some pending_file \<Rightarrow>
          (case move_task e pending_file InProgress w of
             Inl x \<Rightarrow> Inl x
           | Inr (task_file, w1) \<Rightarrow>
               (case read_task task_file w1 of
                  Inl x \<Rightarrow> Inl x
                | Inr task_content \<Rightarrow>
                    (case run_codex e (impl_prompt task_content) w1 of
                       Inl x \<Rightarrow> Inl x
                     | Inr (success, w2) \<Rightarrow>
                         if \<not> success then
                           (case move_task e task_file Failed w2 of
                              Inl x \<Rightarrow> Inl x
                            | Inr (_, w3) \<Rightarrow> Inr w3)
                         else
                           (case build_fix_loop e 5 w2 of
                              Inl x \<Rightarrow> Inl x
                            | Inr (build_success, w3) \<Rightarrow>
                                (case move_task e task_file
                                        (if build_success then Done else Failed) w3 of
                                   Inl x \<Rightarrow> Inl x
                                 | Inr (_, w4) \<Rightarrow> Inr (sleep 5 w4)))))))"

text \<open>
  \<open>while True\<close> never returns; it ends only with an exception. The model runs a given
  number of iterations: \<open>Inl\<close> is the exception that ended the loop, \<open>Inr\<close> the state
  in which the loop is still running.
\<close>

fun iterations :: "env \<Rightarrow> nat \<Rightarrow> world \<Rightarrow> (error \<times> world) + world" where
  "iterations e 0 w = Inr w"
| "iterations e (Suc k) w =
     (case iteration e w of
        Inl x \<Rightarrow> Inl x
      | Inr w' \<Rightarrow> iterations e k w')"

definition main_loop :: "env \<Rightarrow> nat \<Rightarrow> world \<Rightarrow> (error \<times> world) + world" where
  "main_loop e k w = iterations e k (ensure_task_dirs w)"

subsection \<open>What the properties speak about\<close>

definition names :: "store \<Rightarrow> queue \<Rightarrow> string list" where
  "names st q = map fst (st q)"

definition all_names :: "store \<Rightarrow> string list" where
  "all_names st = names st Pending @ names st InProgress @ names st Done @ names st Failed"

text \<open>File names are unique across the whole store.\<close>

definition unique_names :: "store \<Rightarrow> bool" where
  "unique_names st = distinct (all_names st)"

text \<open>The directories that hold a file of the given name.\<close>

definition located :: "store \<Rightarrow> string \<Rightarrow> queue list" where
  "located st name =
     filter (\<lambda>q. name \<in> set (names st q)) [Pending, InProgress, Done, Failed]"

text \<open>The store after the entries called \<open>name\<close> went from one directory to the end of another.\<close>

definition relocate :: "string \<Rightarrow> queue \<Rightarrow> queue \<Rightarrow> store \<Rightarrow> store" where
  "relocate name q q' st =
     st(q := remove_name name (st q), q' := st q' @ filter (\<lambda>e. fst e = name) (st q))"

definition fix_prompts_sent :: "world \<Rightarrow> nat" where
  "fix_prompts_sent w =
     length (filter (\<lambda>ev. case ev of CodexRun p \<Rightarrow> is_fix_prompt p | _ \<Rightarrow> False) (trace w))"

subsection \<open>A store and an environment to run the worker on\<close>

text \<open>
  Three files are pending, one of them no task; the codex process and the build script
  return the given codes.
\<close>

definition example_store :: store where
  "example_store =
     (\<lambda>q. [])(Pending :=
       [(''b.md'', Text ''second''), (''a.md'', Text ''first''), (''notes.txt'', Text ''memo'')])"

definition example_world :: world where
  "example_world = \<lparr>fs = example_store, codex_calls = 0, build_calls = 0, trace = []\<rparr>"

definition example_env :: "(nat \<Rightarrow> int) \<Rightarrow> (nat \<Rightarrow> int) \<Rightarrow> env" where
  "example_env codex build =
     \<lparr>rename_replaces = False,
      codex_exit = (\<lambda>i. Some (codex i)),
      build_result = (\<lambda>i. Some (build i, ''out'', ''err''))\<rparr>"

text \<open>A store whose only pending file is no task, and one whose only task cannot be read.\<close>

definition notes_only_world :: world where
  "notes_only_world =
     \<lparr>fs = (\<lambda>q. [])(Pending := [(''notes.txt'', Text ''memo'')]),
      codex_calls = 0, build_calls = 0, trace = []\<rparr>"

definition unreadable_world :: world where
  "unreadable_world =
     \<lparr>fs = (\<lambda>q. [])(Pending := [(''a.md'', Unreadable)]),
      codex_calls = 0, build_calls = 0, trace = []\<rparr>"

text \<open>An environment in which every process returns 0.\<close>

definition quiet_env :: env where
  "quiet_env = example_env (\<lambda>i. 0) (\<lambda>i. 0)"

subsection \<open>The QA report generator (qa\_agent.py)\<close>

text \<open>
  The state of the graph, and what the script sees of the outside: the checklist file
  \<open>release_qa.txt\<close> (\<open>None\<close> when it does not exist), whether the directory
  \<open>qa_output\<close> exists, the content of \<open>qa_output/qa_decision.txt\<close> (\<open>None\<close> when
  there is no such file) and the prompts sent to the language model. The path
  \<open>qa_output\<close> is taken to be absent or a directory.
\<close>

record QAState =
  qa_text :: string
  report :: string

record qa_world =
  release_qa :: "node option"
  qa_output_dir :: bool
  qa_decision :: "string option"
  llm_inputs :: "string list"

text \<open>
  The language model answers a prompt with \<open>response.output_text\<close>, or the call raises
  (\<open>None\<close>).
\<close>

type_synonym llm = "string \<Rightarrow> string option"

definition qa_missing :: string where
  \<open>qa_missing = ''Q&A file missing.''\<close>

text \<open>
  The f-string of \<open>analyze_qa\<close>. Its only character outside ASCII, the arrow U+2192, is
  written as the three bytes of its UTF-8 encoding.
\<close>

definition arrow :: string where
  "arrow = [CHR 0xE2, CHR 0x86, CHR 0x92]"

definition qa_prompt_head :: string where
  \<open>qa_prompt_head =
     ''\<newline>'' @
     ''You are a senior Android production readiness QA engineer for an offline music player.\<newline>'' @
     ''\<newline>'' @
     ''Analyze the developer's release checklist answers below.\<newline>'' @
     ''\<newline>'' @
     ''Goal:\<newline>'' @
     ''- Detect REAL production risks only\<newline>'' @
     ''- Identify crash/playback/billing risks\<newline>'' @
     ''- Predict likely user complaints\<newline>'' @
     ''- Decide if app is SAFE TO SHIP or FIX REQUIRED\<newline>'' @
     ''\<newline>'' @
     ''Rules:\<newline>'' @
     ''- Any NO in critical areas = RISK\<newline>'' @
     ''- UNSURE = WARNING\<newline>'' @
     ''- Focus on playback reliability, crashes, billing, background survival\<newline>'' @
     ''- Ignore minor polish\<newline>'' @
     ''\<newline>'' @
     ''Developer Answers:\<newline>''\<close>

definition qa_prompt_tail :: string where
  \<open>qa_prompt_tail =
     ''\<newline>'' @
     ''\<newline>'' @
     ''Output in structured format:\<newline>'' @
     ''\<newline>'' @
     ''CRASH & STABILITY '' @ arrow @ '' SAFE / RISK\<newline>'' @
     ''PLAYBACK RELIABILITY '' @ arrow @ '' SAFE / RISK\<newline>'' @
     ''BACKGROUND SERVICE '' @ arrow @ '' SAFE / RISK\<newline>'' @
     ''NOTIFICATION & CONTROLS '' @ arrow @ '' SAFE / RISK\<newline>'' @
     ''LIBRARY & STORAGE '' @ arrow @ '' SAFE / RISK\<newline>'' @
     ''PERFORMANCE '' @ arrow @ '' OK / RISK\<newline>'' @
     ''BILLING '' @ arrow @ '' SAFE / RISK\<newline>'' @
     ''USER COMPLAINT RISK '' @ arrow @ '' LOW / MEDIUM / HIGH\<newline>'' @
     ''\<newline>'' @
     ''FINAL DECISION '' @ arrow @ '' SAFE TO SHIP / FIX BEFORE RELEASE\<newline>'' @
     ''\<newline>'' @
     ''Also list:\<newline>'' @
     ''- Top 3 risks (if any)\<newline>'' @
     ''- What MUST be fixed before release\<newline>''\<close>

definition qa_prompt :: "string \<Rightarrow> string" where
  "qa_prompt text = qa_prompt_head @ text @ qa_prompt_tail"

definition read_qa :: "QAState \<Rightarrow> qa_world \<Rightarrow> (error \<times> qa_world) + QAState" where
  "read_qa state w =
     (case release_qa w of
        None \<Rightarrow> Inr (state\<lparr>qa_text := qa_missing\<rparr>)
      | Some Unreadable \<Rightarrow> Inl (ReadError, w)
      | Some (Text s) \<Rightarrow> Inr (state\<lparr>qa_text := s\<rparr>))"

definition analyze_qa :: "llm \<Rightarrow> QAState \<Rightarrow> qa_world \<Rightarrow> (error \<times> qa_world) + (QAState \<times> qa_world)" where
  "analyze_qa model state w =
     (let prompt = qa_prompt (qa_text state)
      in case model prompt of
           None \<Rightarrow> Inl (ApiError, w)
         | Some output_text \<Rightarrow>
             Inr (state\<lparr>report := output_text\<rparr>, w\<lparr>llm_inputs := llm_inputs w @ [prompt]\<rparr>))"

definition save_report :: "QAState \<Rightarrow> qa_world \<Rightarrow> QAState \<times> qa_world" where
  "save_report state w = (state, w\<lparr>qa_output_dir := True, qa_decision := Some (report state)\<rparr>)"

text \<open>The compiled graph: \<open>read_qa\<close>, then \<open>analyze_qa\<close>, then \<open>save_report\<close>.\<close>

definition app_invoke :: "llm \<Rightarrow> QAState \<Rightarrow> qa_world \<Rightarrow> (error \<times> qa_world) + (QAState \<times> qa_world)" where
  "app_invoke model state w =
     (case read_qa state w of
        Inl x \<Rightarrow> Inl x
      | Inr state1 \<Rightarrow>
          (case analyze_qa model state1 w of
             Inl x \<Rightarrow> Inl x
           | Inr (state2, w2) \<Rightarrow> Inr (save_report state2 w2)))"

definition initial_state :: QAState where
  "initial_state = \<lparr>qa_text = '''', report = ''''\<rparr>"

text \<open>
  A run to look at: no checklist file, no output directory, and a model that answers every
  prompt with the empty text, or with a fixed verdict.
\<close>

definition no_checklist_world :: qa_world where
  "no_checklist_world =
     \<lparr>release_qa = None, qa_output_dir = False, qa_decision = None, llm_inputs = []\<rparr>"

definition silent_llm :: llm where
  "silent_llm prompt = Some ''''"

definition verdict_llm :: llm where
  "verdict_llm prompt = Some ''FIX BEFORE RELEASE''"

section \<open>Properties\<close>

subsection \<open>Slicing and the fix prompt\<close>

lemma slice_from_neg:
  assumes "0 < k"
  shows "slice_from (- int k) xs = drop (length xs - k) xs"
proof -
  have "nat (max 0 (int (length xs) - int k)) = length xs - k"
    by auto
  with assms show ?thesis
    by (simp add: slice_from_def Let_def)
qed

lemma trimmed_log_drop:
  "trimmed_log error_log = drop (length error_log - 1000) error_log"
  using slice_from_neg [of 1000 error_log] by (simp add: trimmed_log_def)

lemma is_fix_prompt_fix [simp]: "is_fix_prompt (fix_prompt error_log)"
  by (simp add: is_fix_prompt_def fix_prompt_def fix_prompt_head_def)

lemma is_fix_prompt_impl [simp]: "\<not> is_fix_prompt (impl_prompt task_content)"
  by (simp add: is_fix_prompt_def impl_prompt_def)

text \<open>
  C6. Whenever the codex process starts, \<open>fix_build_with_codex\<close> sends one prompt: the fixed
  head, the trimmed log and a final newline, and nothing else of the build output. The
  trimmed log is a suffix of the build output of at most 1000 characters: the whole output
  when that has at most 1000 characters, its last 1000 characters otherwise.
\<close>

theorem fix_prompt_embeds_suffix:
  "(\<forall>rc. codex_exit e (codex_calls w) = Some rc \<longrightarrow>
       fix_build_with_codex e error_log w =
         Inr (rc = 0,
              w\<lparr>codex_calls := Suc (codex_calls w),
                trace := trace w @
                  [CodexRun (fix_prompt_head @ drop (length error_log - 1000) error_log
                             @ fix_prompt_tail)]\<rparr>))
   \<and> trimmed_log error_log = drop (length error_log - 1000) error_log
   \<and> length (trimmed_log error_log) \<le> 1000
   \<and> suffix (trimmed_log error_log) error_log
   \<and> (length error_log \<le> 1000 \<longrightarrow> trimmed_log error_log = error_log)
   \<and> (1000 < length error_log \<longrightarrow> length (trimmed_log error_log) = 1000)"
proof -
  have S: "suffix (drop (length error_log - 1000) error_log) error_log"
    by (rule suffix_drop)
  have P: "\<forall>rc. codex_exit e (codex_calls w) = Some rc \<longrightarrow>
       fix_build_with_codex e error_log w =
         Inr (rc = 0,
              w\<lparr>codex_calls := Suc (codex_calls w),
                trace := trace w @
                  [CodexRun (fix_prompt_head @ drop (length error_log - 1000) error_log
                             @ fix_prompt_tail)]\<rparr>)"
    by (simp add: fix_build_with_codex_def run_codex_def fix_prompt_def trimmed_log_drop Let_def)
  from S P show ?thesis
    by (simp add: trimmed_log_drop)
qed

theorem fix_prompt_embeds_suffix_witness:
  "fix_build_with_codex quiet_env (CHR ''b'' # replicate 1000 CHR ''a'') example_world =
     Inr (True,
          example_world\<lparr>codex_calls := 1,
            trace := [CodexRun (fix_prompt_head @ replicate 1000 CHR ''a'' @ fix_prompt_tail)]\<rparr>)
   \<and> 1000 < length (CHR ''b'' # replicate 1000 CHR ''a'')
   \<and> trimmed_log (CHR ''b'' # replicate 1000 CHR ''a'') = replicate 1000 CHR ''a''
   \<and> length (replicate 1000 CHR ''a'') \<le> 1000
   \<and> trimmed_log (replicate 1000 CHR ''a'') = replicate 1000 CHR ''a''"
proof -
  have X: "codex_exit quiet_env (codex_calls example_world) = Some 0"
    by (simp add: quiet_env_def example_env_def)
  have Z: "codex_calls example_world = 0" "trace example_world = []"
    by (simp_all add: example_world_def)
  from fix_prompt_embeds_suffix [of quiet_env example_world "CHR ''b'' # replicate 1000 CHR ''a''"]
    fix_prompt_embeds_suffix [of quiet_env example_world "replicate 1000 CHR ''a''"] X
  show ?thesis by (simp add: Z)
qed

subsection \<open>Moving a file between directories\<close>

lemma unique_names_distinct: "unique_names st \<Longrightarrow> distinct (names st q)"
  by (cases q) (auto simp: unique_names_def all_names_def)

lemma unique_names_disjoint:
  "unique_names st \<Longrightarrow> q \<noteq> q' \<Longrightarrow> n \<in> set (names st q) \<Longrightarrow> n \<notin> set (names st q')"
  by (cases q; cases q') (auto simp: unique_names_def all_names_def)

lemma map_of_names: "map_of (st q) n = Some f \<Longrightarrow> n \<in> set (names st q)"
  by (auto simp: names_def dest: map_of_SomeD intro: rev_image_eqI)

lemma map_of_absent: "n \<notin> set (names st q) \<Longrightarrow> map_of (st q) n = None"
  by (simp add: names_def map_of_eq_None_iff)

lemma remove_name_absent: "n \<notin> fst ` set l \<Longrightarrow> remove_name n l = l"
  by (induction l) (auto simp: remove_name_def)

lemma filter_name_single:
  "distinct (map fst l) \<Longrightarrow> map_of l n = Some f \<Longrightarrow> filter (\<lambda>e. fst e = n) l = [(n, f)]"
proof (induction l)
  case Nil
  then show ?case by simp
next
  case (Cons a l)
  show ?case
  proof (cases "fst a = n")
    case True
    with Cons.prems have "a = (n, f)" by (cases a) auto
    moreover have "filter (\<lambda>e. fst e = n) l = []"
    proof -
      from True Cons.prems have "n \<notin> fst ` set l" by simp
      then have "\<forall>x\<in>set l. fst x \<noteq> n" by (metis imageI)
      then show ?thesis by (simp add: filter_empty_conv)
    qed
    ultimately show ?thesis by simp
  next
    case False
    with Cons show ?thesis by (cases a) auto
  qed
qed

lemma move_task_relocate:
  assumes U: "unique_names (fs w)" and F: "map_of (fs w q) n = Some f" and Q: "q \<noteq> q'"
  shows "move_task e (q, n) q' w = Inr ((q', n), w\<lparr>fs := relocate n q q' (fs w)\<rparr>)"
proof -
  have A: "n \<notin> set (names (fs w) q')"
    using U Q F by (blast intro: map_of_names dest: unique_names_disjoint)
  then have N: "map_of (fs w q') n = None" by (rule map_of_absent)
  from A have R: "remove_name n (fs w q') = fs w q'"
    by (simp add: remove_name_absent names_def)
  have S: "filter (\<lambda>e. fst e = n) (fs w q) = [(n, f)]"
    using unique_names_distinct [OF U, of q] F by (simp add: filter_name_single names_def)
  show ?thesis
    using Q F N R S by (simp add: move_task_def rename_def relocate_def Let_def)
qed

lemma unique_names_iff:
  "unique_names st \<longleftrightarrow>
     (\<forall>q. distinct (names st q)) \<and>
     (\<forall>q q'. q \<noteq> q' \<longrightarrow> set (names st q) \<inter> set (names st q') = {})"
  (is "?L \<longleftrightarrow> ?D \<and> ?I")
proof
  assume ?L
  then show "?D \<and> ?I"
    by (blast intro: unique_names_distinct dest: unique_names_disjoint)
next
  assume A: "?D \<and> ?I"
  then have "distinct (names st Pending)" "distinct (names st InProgress)"
    "distinct (names st Done)" "distinct (names st Failed)"
    by simp_all
  moreover from A have "set (names st Pending) \<inter> set (names st InProgress) = {}"
    "set (names st Pending) \<inter> set (names st Done) = {}"
    "set (names st Pending) \<inter> set (names st Failed) = {}"
    "set (names st InProgress) \<inter> set (names st Done) = {}"
    "set (names st InProgress) \<inter> set (names st Failed) = {}"
    "set (names st Done) \<inter> set (names st Failed) = {}"
    by simp_all
  ultimately show ?L
    by (simp add: unique_names_def all_names_def Int_Un_distrib)
qed

lemma names_remove_name: "map fst (remove_name n l) = filter (\<lambda>m. m \<noteq> n) (map fst l)"
  by (induction l) (auto simp: remove_name_def)

lemma names_filter_name: "map fst (filter (\<lambda>e. fst e = n) l) = filter (\<lambda>m. m = n) (map fst l)"
  by (induction l) auto

lemma names_relocate:
  "q \<noteq> q' \<Longrightarrow> names (relocate n q q' st) r =
     (if r = q' then names st q' @ filter (\<lambda>m. m = n) (names st q)
      else if r = q then filter (\<lambda>m. m \<noteq> n) (names st q)
      else names st r)"
  by (auto simp: names_def relocate_def names_remove_name names_filter_name)

lemma filter_eq_distinct:
  "distinct l \<Longrightarrow> n \<in> set l \<Longrightarrow> filter (\<lambda>m. m = n) l = [n]"
  by (induction l) (auto simp: filter_empty_conv)

lemma names_relocate_present:
  assumes "unique_names st" "n \<in> set (names st q)" "q \<noteq> q'"
  shows "names (relocate n q q' st) r =
     (if r = q' then names st q' @ [n]
      else if r = q then filter (\<lambda>m. m \<noteq> n) (names st q)
      else names st r)"
  using assms
  by (simp add: names_relocate filter_eq_distinct unique_names_distinct)

lemma unique_names_relocate:
  assumes U: "unique_names st" and P: "n \<in> set (names st q)" and Q: "q \<noteq> q'"
  shows "unique_names (relocate n q q' st)"
proof -
  note N = names_relocate_present [OF U P Q]
  from U have D: "\<And>r. distinct (names st r)"
    and I: "\<And>r r'. r \<noteq> r' \<Longrightarrow> set (names st r) \<inter> set (names st r') = {}"
    by (simp_all add: unique_names_iff)
  have A: "n \<notin> set (names st r)" if "r \<noteq> q" for r
    using I [of q r] P that by auto
  have "distinct (names (relocate n q q' st) r)" for r
    using D [of r] D [of q] D [of q'] A [of q'] Q by (simp add: N)
  moreover have "set (names (relocate n q q' st) r) \<inter> set (names (relocate n q q' st) r') = {}"
    if "r \<noteq> r'" for r r'
    using I [of r r'] I [of q' r'] I [of r q'] I [of q r'] I [of r q] A [of r] A [of r'] that Q
    by (auto simp: N)
  ultimately show ?thesis
    by (simp add: unique_names_iff)
qed

lemma set_all_names:
  "set (all_names st) = (\<Union>q. set (names st q))"
proof (intro equalityI subsetI)
  fix x assume "x \<in> set (all_names st)"
  then show "x \<in> (\<Union>q. set (names st q))"
    by (auto simp: all_names_def)
next
  fix x assume "x \<in> (\<Union>q. set (names st q))"
  then obtain q where "x \<in> set (names st q)" by blast
  then show "x \<in> set (all_names st)"
    by (cases q) (simp_all add: all_names_def)
qed

lemma set_all_names_relocate:
  assumes U: "unique_names st" and P: "n \<in> set (names st q)" and Q: "q \<noteq> q'"
  shows "set (all_names (relocate n q q' st)) = set (all_names st)"
proof -
  note N = names_relocate_present [OF U P Q]
  show ?thesis
    unfolding set_all_names
  proof (intro equalityI subsetI)
    fix x assume "x \<in> (\<Union>r. set (names (relocate n q q' st) r))"
    then obtain r where "x \<in> set (names (relocate n q q' st) r)" by blast
    then show "x \<in> (\<Union>r. set (names st r))"
      using P by (auto simp: N split: if_splits)
  next
    fix x assume "x \<in> (\<Union>r. set (names st r))"
    then obtain r where R: "x \<in> set (names st r)" by blast
    show "x \<in> (\<Union>r. set (names (relocate n q q' st) r))"
    proof (cases "x = n")
      case True
      have "n \<in> set (names (relocate n q q' st) q')" by (simp add: N)
      with True show ?thesis by blast
    next
      case False
      with R have "x \<in> set (names (relocate n q q' st) r)" by (auto simp: N)
      then show ?thesis by blast
    qed
  qed
qed

lemma located_iff: "q \<in> set (located st n) \<longleftrightarrow> n \<in> set (names st q)"
  by (cases q) (simp_all add: located_def)

lemma located_single:
  assumes U: "unique_names st" and P: "n \<in> set (names st q)"
  shows "located st n = [q]"
proof -
  have "\<And>r. r \<noteq> q \<Longrightarrow> n \<notin> set (names st r)"
    using U P by (blast dest: unique_names_disjoint)
  with P show ?thesis
    by (cases q) (simp_all add: located_def)
qed

lemma map_of_relocate:
  assumes U: "unique_names st" and F: "map_of (st q) n = Some f" and Q: "q \<noteq> q'"
  shows "map_of (relocate n q q' st q') n = Some f"
proof -
  have "n \<notin> set (names st q')"
    using U Q F by (blast intro: map_of_names dest: unique_names_disjoint)
  then have "map_of (st q') n = None" by (rule map_of_absent)
  moreover have "filter (\<lambda>e. fst e = n) (st q) = [(n, f)]"
    using unique_names_distinct [OF U, of q] F by (simp add: filter_name_single names_def)
  ultimately show ?thesis
    using Q by (simp add: relocate_def map_add_def)
qed

subsection \<open>Picking the next task\<close>

lemma set_glob_md:
  "set (glob_md d st) = {(d, m) | m. m \<in> set (names st d) \<and> matches_md m}"
proof (intro equalityI subsetI)
  fix p assume "p \<in> set (glob_md d st)"
  then obtain e where "e \<in> set (st d)" "matches_md (fst e)" "p = (d, fst e)"
    by (auto simp: glob_md_def)
  then show "p \<in> {(d, m) | m. m \<in> set (names st d) \<and> matches_md m}"
    by (simp add: names_def)
next
  fix p assume "p \<in> {(d, m) | m. m \<in> set (names st d) \<and> matches_md m}"
  then obtain m where m: "p = (d, m)" "m \<in> fst ` set (st d)" "matches_md m"
    by (auto simp: names_def)
  then obtain e where e: "e \<in> set (st d)" "fst e = m" by blast
  with m have "e \<in> set (filter (\<lambda>e. matches_md (fst e)) (st d))" by simp
  then have "(d, fst e) \<in> set (glob_md d st)"
    unfolding glob_md_def set_map by (rule imageI)
  with m e show "p \<in> set (glob_md d st)" by simp
qed

lemma get_next_task_file_None:
  "get_next_task_file st = None \<longleftrightarrow> (\<forall>m \<in> set (names st Pending). \<not> matches_md m)"
proof -
  have "get_next_task_file st = None \<longleftrightarrow> sort_key snd (glob_md Pending st) = []"
    by (simp add: get_next_task_file_def Let_def split: list.splits)
  also have "\<dots> \<longleftrightarrow> set (sort_key snd (glob_md Pending st)) = {}"
    by (simp only: set_empty)
  also have "\<dots> \<longleftrightarrow> set (glob_md Pending st) = {}"
    by (simp only: set_sort)
  also have "\<dots> \<longleftrightarrow> (\<forall>m \<in> set (names st Pending). \<not> matches_md m)"
    by (auto simp: set_glob_md)
  finally show ?thesis .
qed

lemma get_next_task_file_Some:
  assumes "get_next_task_file st = Some p"
  shows "fst p = Pending" and "snd p \<in> set (names st Pending)" and "matches_md (snd p)"
    and "\<And>m. m \<in> set (names st Pending) \<Longrightarrow> matches_md m \<Longrightarrow> snd p \<le> m"
proof -
  from assms obtain rest where S: "sort_key snd (glob_md Pending st) = p # rest"
    by (auto simp: get_next_task_file_def Let_def split: list.splits)
  have E: "set (p # rest) = set (glob_md Pending st)"
    unfolding S [symmetric] by (rule set_sort)
  then have P: "p \<in> set (glob_md Pending st)" by auto
  then show "fst p = Pending" "snd p \<in> set (names st Pending)" "matches_md (snd p)"
    by (auto simp: set_glob_md)
  have O: "sorted (map snd (p # rest))"
    unfolding S [symmetric] by (rule sorted_sort_key)
  fix m assume "m \<in> set (names st Pending)" "matches_md m"
  then have "(Pending, m) \<in> set (glob_md Pending st)" by (simp add: set_glob_md)
  then have "(Pending, m) \<in> set (p # rest)" using E by simp
  then have "(Pending, m) = p \<or> (Pending, m) \<in> set rest" by simp
  then show "snd p \<le> m"
  proof
    assume "(Pending, m) = p"
    then show ?thesis by auto
  next
    assume "(Pending, m) \<in> set rest"
    moreover from O have "\<forall>x\<in>set rest. snd p \<le> snd x" by simp
    ultimately have "snd p \<le> snd (Pending, m)" by blast
    then show ?thesis by simp
  qed
qed

lemma names_map_of:
  "n \<in> set (names st q) \<Longrightarrow> \<exists>f. map_of (st q) n = Some f"
proof -
  assume "n \<in> set (names st q)"
  then have "map_of (st q) n \<noteq> None"
    by (simp add: names_def map_of_eq_None_iff)
  then show ?thesis by blast
qed

lemma move_task_general:
  assumes U: "unique_names (fs w)"
  shows "move_task e (q, n) q' w =
     (case map_of (fs w q) n of
        None \<Rightarrow> Inl (FileNotFoundError, w)
      | Some f \<Rightarrow> Inr ((q', n), if q' = q then w else w\<lparr>fs := relocate n q q' (fs w)\<rparr>))"
proof (cases "map_of (fs w q) n")
  case None
  then show ?thesis by (simp add: move_task_def rename_def)
next
  case (Some f)
  show ?thesis
  proof (cases "q' = q")
    case True
    with Some show ?thesis by (simp add: move_task_def rename_def)
  next
    case False
    then have Q: "q \<noteq> q'" by simp
    have "move_task e (q, n) q' w = Inr ((q', n), w\<lparr>fs := relocate n q q' (fs w)\<rparr>)"
      using U Some Q by (rule move_task_relocate)
    then show ?thesis by (simp only: Some False option.case if_False)
  qed
qed

subsection \<open>The processes leave the store alone\<close>

lemma run_codex_fs:
  "run_codex e p w = Inr (b, w') \<Longrightarrow> fs w' = fs w"
  "run_codex e p w = Inl (x, w') \<Longrightarrow> w' = w"
  by (auto simp: run_codex_def Let_def split: option.splits if_splits)

lemma build_project_fs:
  "build_project e w = Inr (r, w') \<Longrightarrow> fs w' = fs w"
  "build_project e w = Inl (x, w') \<Longrightarrow> w' = w"
  by (auto simp: build_project_def split: option.splits)

lemma sleep_fs [simp]: "fs (sleep s w) = fs w"
  by (simp add: sleep_def)

lemma build_fix_loop_fs_both:
  "(\<forall>b w'. build_fix_loop e k w = Inr (b, w') \<longrightarrow> fs w' = fs w) \<and>
   (\<forall>x w'. build_fix_loop e k w = Inl (x, w') \<longrightarrow> fs w' = fs w)"
proof (induction k arbitrary: w)
  case 0
  show ?case by simp
next
  case (Suc k)
  show ?case
  proof (cases "build_project e w")
    case (Inl a)
    obtain x w0 where a: "a = (x, w0)" by (cases a)
    with Inl have "w0 = w" using build_project_fs(2) [of e w x w0] by simp
    with Inl a show ?thesis by simp
  next
    case (Inr r)
    obtain cl w1 where "r = (cl, w1)" by (cases r)
    moreover obtain code log where "cl = (code, log)" by (cases cl)
    ultimately have r: "r = ((code, log), w1)" by simp
    with Inr have w1: "fs w1 = fs w" using build_project_fs(1) [of e w "(code, log)" w1] by simp
    show ?thesis
    proof (cases "code = 0")
      case True
      with Inr r w1 show ?thesis by simp
    next
      case False
      show ?thesis
      proof (cases "run_codex e (fix_prompt log) w1")
        case (Inl a)
        obtain x w0 where a: "a = (x, w0)" by (cases a)
        with Inl have "w0 = w1" using run_codex_fs(2) [of e "fix_prompt log" w1 x w0] by simp
        with Inl a Inr r False w1 show ?thesis
          by (simp add: fix_build_with_codex_def)
      next
        case (Inr s)
        obtain ok w2 where s: "s = (ok, w2)" by (cases s)
        with Inr have w2: "fs w2 = fs w1" using run_codex_fs(1) [of e "fix_prompt log" w1 ok w2] by simp
        have "fs (sleep 2 w2) = fs w" using w1 w2 by simp
        have E: "build_fix_loop e (Suc k) w =
            (if ok then build_fix_loop e k (sleep 2 w2) else Inr (False, w2))"
          using \<open>build_project e w = Inr r\<close> r False Inr s
          by (simp add: fix_build_with_codex_def)
        have F: "fs (sleep 2 w2) = fs w" "fs w2 = fs w" using w1 w2 by simp_all
        show ?thesis
        proof (cases ok)
          case True
          with E have "build_fix_loop e (Suc k) w = build_fix_loop e k (sleep 2 w2)"
            by (simp only: if_True)
          with Suc.IH [of "sleep 2 w2"] show ?thesis
            by (simp only: F)
        next
          case False
          with E have "build_fix_loop e (Suc k) w = Inr (False, w2)"
            by (simp only: if_False)
          then show ?thesis by (simp add: F)
        qed
      qed
    qed
  qed
qed

lemma build_fix_loop_fs:
  "build_fix_loop e k w = Inr (b, w') \<Longrightarrow> fs w' = fs w"
  "build_fix_loop e k w = Inl (x, w') \<Longrightarrow> fs w' = fs w"
  using build_fix_loop_fs_both [of e k w] by simp_all

subsection \<open>One iteration on a picked task\<close>

lemma iteration_picked:
  assumes U: "unique_names (fs w)"
    and N: "get_next_task_file (fs w) = Some (Pending, n)"
    and F: "map_of (fs w Pending) n = Some f"
  shows "iteration e w =
    (case f of
       Unreadable \<Rightarrow> Inl (ReadError, w\<lparr>fs := relocate n Pending InProgress (fs w)\<rparr>)
     | Text c \<Rightarrow>
         (case run_codex e (impl_prompt c) (w\<lparr>fs := relocate n Pending InProgress (fs w)\<rparr>) of
            Inl x \<Rightarrow> Inl x
          | Inr (success, w2) \<Rightarrow>
              if \<not> success then Inr (w2\<lparr>fs := relocate n InProgress Failed (fs w2)\<rparr>)
              else
                (case build_fix_loop e 5 w2 of
                   Inl x \<Rightarrow> Inl x
                 | Inr (b, w3) \<Rightarrow>
                     Inr (sleep 5 (w3\<lparr>fs :=
                       relocate n InProgress (if b then Done else Failed) (fs w3)\<rparr>)))))"
proof -
  define w1 where "w1 = w\<lparr>fs := relocate n Pending InProgress (fs w)\<rparr>"
  have P: "n \<in> set (names (fs w) Pending)" using F by (rule map_of_names)
  have M1: "move_task e (Pending, n) InProgress w = Inr ((InProgress, n), w1)"
    unfolding w1_def using U F by (rule move_task_relocate) simp
  have U1: "unique_names (fs w1)"
    unfolding w1_def using unique_names_relocate [OF U P, of InProgress] by simp
  have F1: "map_of (fs w1 InProgress) n = Some f"
    unfolding w1_def using map_of_relocate [OF U F, of InProgress] by simp
  have I: "iteration e w =
      (case read_task (InProgress, n) w1 of
         Inl x \<Rightarrow> Inl x
       | Inr task_content \<Rightarrow>
           (case run_codex e (impl_prompt task_content) w1 of
              Inl x \<Rightarrow> Inl x
            | Inr (success, w2) \<Rightarrow>
                if \<not> success then
                  (case move_task e (InProgress, n) Failed w2 of
                     Inl x \<Rightarrow> Inl x
                   | Inr (_, w3) \<Rightarrow> Inr w3)
                else
                  (case build_fix_loop e 5 w2 of
                     Inl x \<Rightarrow> Inl x
                   | Inr (build_success, w3) \<Rightarrow>
                       (case move_task e (InProgress, n)
                               (if build_success then Done else Failed) w3 of
                          Inl x \<Rightarrow> Inl x
                        | Inr (_, w4) \<Rightarrow> Inr (sleep 5 w4)))))"
    by (simp add: iteration_def N M1)
  have M: "move_task e (InProgress, n) t v = Inr ((t, n), v\<lparr>fs := relocate n InProgress t (fs v)\<rparr>)"
    if "fs v = fs w1" "t \<noteq> InProgress" for t v
  proof -
    from that U1 F1 have "unique_names (fs v)" "map_of (fs v InProgress) n = Some f"
      "InProgress \<noteq> t" by auto
    then show ?thesis by (rule move_task_relocate)
  qed
  show ?thesis
  proof (cases f)
    case Unreadable
    with I F1 show ?thesis by (simp add: read_task_def w1_def)
  next
    case (Text c)
    with F1 have R: "read_task (InProgress, n) w1 = Inr c" by (simp add: read_task_def)
    show ?thesis
    proof (cases "run_codex e (impl_prompt c) w1")
      case (Inl a)
      with I R Text show ?thesis by (simp add: w1_def)
    next
      case (Inr s)
      obtain ok w2 where s: "s = (ok, w2)" by (cases s)
      with Inr have w2: "fs w2 = fs w1" using run_codex_fs(1) [of e "impl_prompt c" w1 ok w2] by simp
      show ?thesis
      proof (cases ok)
        case False
        with I R Text Inr s M [OF w2, of Failed] show ?thesis by (simp add: w1_def)
      next
        case True
        show ?thesis
        proof (cases "build_fix_loop e 5 w2")
          case (Inl a)
          with I R Text Inr s True show ?thesis using \<open>run_codex e (impl_prompt c) w1 = Inr s\<close>
            by (simp add: w1_def)
        next
          case (Inr r)
          obtain b w3 where r: "r = (b, w3)" by (cases r)
          with Inr have "fs w3 = fs w2" using build_fix_loop_fs(1) [of e 5 w2 b w3] by simp
          with w2 have w3: "fs w3 = fs w1" by simp
          have "move_task e (InProgress, n) (if b then Done else Failed) w3 =
              Inr ((if b then Done else Failed, n),
                   w3\<lparr>fs := relocate n InProgress (if b then Done else Failed) (fs w3)\<rparr>)"
            using w3 by (rule M) simp
          with I R Text s True Inr r \<open>run_codex e (impl_prompt c) w1 = Inr s\<close>
          show ?thesis by (simp add: w1_def)
        qed
      qed
    qed
  qed
qed

subsection \<open>Rounds of the build and fix loop\<close>

lemma fix_prompts_sent_simps [simp]:
  "fix_prompts_sent (w\<lparr>trace := trace w @ [BuildRun]\<rparr>) = fix_prompts_sent w"
  "fix_prompts_sent (w\<lparr>trace := trace w @ [Sleep s]\<rparr>) = fix_prompts_sent w"
  "fix_prompts_sent (w\<lparr>trace := trace w @ [CodexRun p]\<rparr>) =
     (if is_fix_prompt p then Suc (fix_prompts_sent w) else fix_prompts_sent w)"
  "fix_prompts_sent (w\<lparr>fs := st\<rparr>) = fix_prompts_sent w"
  "fix_prompts_sent (w\<lparr>codex_calls := a\<rparr>) = fix_prompts_sent w"
  "fix_prompts_sent (w\<lparr>build_calls := a\<rparr>) = fix_prompts_sent w"
  by (simp_all add: fix_prompts_sent_def)

lemma fix_prompts_sent_sleep [simp]: "fix_prompts_sent (sleep s w) = fix_prompts_sent w"
  by (simp add: sleep_def)

lemma build_fix_loop_success:
  assumes "build_result e (build_calls w) = Some (0, out, err)"
  shows "build_fix_loop e (Suc k) w =
     Inr (True, w\<lparr>build_calls := Suc (build_calls w), trace := trace w @ [BuildRun]\<rparr>)"
  using assms by (simp add: build_project_def)

lemma build_fix_loop_fix_failed:
  assumes "build_result e (build_calls w) = Some (c, out, err)" "c \<noteq> 0"
    and "codex_exit e (codex_calls w) = Some r" "r \<noteq> 0"
  shows "build_fix_loop e (Suc k) w =
     Inr (False, w\<lparr>build_calls := Suc (build_calls w), codex_calls := Suc (codex_calls w),
                   trace := trace w @ [BuildRun, CodexRun (fix_prompt (out @ err))]\<rparr>)"
  using assms by (simp add: build_project_def fix_build_with_codex_def run_codex_def)

lemma build_fix_loop_round:
  assumes "build_result e (build_calls w) = Some (c, out, err)" "c \<noteq> 0"
    and "codex_exit e (codex_calls w) = Some 0"
  shows "build_fix_loop e (Suc k) w =
     build_fix_loop e k
       (w\<lparr>build_calls := Suc (build_calls w), codex_calls := Suc (codex_calls w),
          trace := trace w @ [BuildRun, CodexRun (fix_prompt (out @ err)), Sleep 2]\<rparr>)"
  using assms by (simp add: build_project_def fix_build_with_codex_def run_codex_def sleep_def)

lemma build_fix_loop_failures:
  assumes "m \<le> k"
    and "\<forall>i<m. \<exists>c out err. build_result e (build_calls w + i) = Some (c, out, err) \<and> c \<noteq> 0"
    and "\<forall>i<m. codex_exit e (codex_calls w + i) = Some 0"
  shows "\<exists>v. build_fix_loop e k w = build_fix_loop e (k - m) v
           \<and> fs v = fs w
           \<and> build_calls v = build_calls w + m
           \<and> codex_calls v = codex_calls w + m
           \<and> fix_prompts_sent v = fix_prompts_sent w + m"
  using assms
proof (induction m arbitrary: k w)
  case 0
  show ?case by (rule exI [of _ w]) simp
next
  case (Suc m)
  define k' where "k' = k - 1"
  from Suc.prems(1) have k: "k = Suc k'" and mk: "m \<le> k'"
    by (simp_all add: k'_def)
  have "\<exists>c out err. build_result e (build_calls w + 0) = Some (c, out, err) \<and> c \<noteq> 0"
    using Suc.prems(2) [rule_format, of 0] by simp
  then obtain c out err
    where b: "build_result e (build_calls w) = Some (c, out, err)" and c: "c \<noteq> 0"
    by auto
  have x: "codex_exit e (codex_calls w) = Some 0"
    using Suc.prems(3) [rule_format, of 0] by simp
  define u where "u = w\<lparr>build_calls := Suc (build_calls w), codex_calls := Suc (codex_calls w),
          trace := trace w @ [BuildRun, CodexRun (fix_prompt (out @ err)), Sleep 2]\<rparr>"
  have u: "fs u = fs w" "build_calls u = Suc (build_calls w)"
    "codex_calls u = Suc (codex_calls w)" "fix_prompts_sent u = Suc (fix_prompts_sent w)"
    by (simp_all add: u_def fix_prompts_sent_def)
  have R: "build_fix_loop e k w = build_fix_loop e k' u"
    unfolding u_def k using b c x by (rule build_fix_loop_round)
  have B: "\<forall>i<m. \<exists>c out err. build_result e (build_calls u + i) = Some (c, out, err) \<and> c \<noteq> 0"
  proof (intro allI impI)
    fix i assume "i < m"
    then have "Suc i < Suc m" by simp
    from Suc.prems(2) [rule_format, OF this]
    show "\<exists>c out err. build_result e (build_calls u + i) = Some (c, out, err) \<and> c \<noteq> 0"
      by (simp add: u(2))
  qed
  have X: "\<forall>i<m. codex_exit e (codex_calls u + i) = Some 0"
  proof (intro allI impI)
    fix i assume "i < m"
    then have "Suc i < Suc m" by simp
    from Suc.prems(3) [rule_format, OF this]
    show "codex_exit e (codex_calls u + i) = Some 0"
      by (simp add: u(3))
  qed
  from Suc.IH [OF mk B X] obtain v where v:
    "build_fix_loop e k' u = build_fix_loop e (k' - m) v" "fs v = fs u"
    "build_calls v = build_calls u + m" "codex_calls v = codex_calls u + m"
    "fix_prompts_sent v = fix_prompts_sent u + m"
    by blast
  have "build_fix_loop e k w = build_fix_loop e (k - Suc m) v"
    using R v(1) k by simp
  moreover have "fs v = fs w" using v(2) u(1) by simp
  moreover have "build_calls v = build_calls w + Suc m" using v(3) u(2) by simp
  moreover have "codex_calls v = codex_calls w + Suc m" using v(4) u(3) by simp
  moreover have "fix_prompts_sent v = fix_prompts_sent w + Suc m" using v(5) u(4) by simp
  ultimately show ?case by blast
qed

subsection \<open>From pending through in-progress to a final directory\<close>

lemma relocate_twice:
  assumes U: "unique_names st" and P: "n \<in> set (names st Pending)" and T: "t \<noteq> InProgress"
  shows "unique_names (relocate n InProgress t (relocate n Pending InProgress st))"
    and "located (relocate n InProgress t (relocate n Pending InProgress st)) n = [t]"
    and "set (all_names (relocate n InProgress t (relocate n Pending InProgress st))) =
         set (all_names st)"
proof -
  define st1 where "st1 = relocate n Pending InProgress st"
  have Q: "Pending \<noteq> InProgress" by simp
  have U1: "unique_names st1"
    unfolding st1_def using U P Q by (rule unique_names_relocate)
  have P1: "n \<in> set (names st1 InProgress)"
    unfolding st1_def by (simp add: names_relocate_present [OF U P Q])
  have A1: "set (all_names st1) = set (all_names st)"
    unfolding st1_def using U P Q by (rule set_all_names_relocate)
  from T have T': "InProgress \<noteq> t" by simp
  have U2: "unique_names (relocate n InProgress t st1)"
    using U1 P1 T' by (rule unique_names_relocate)
  have P2: "n \<in> set (names (relocate n InProgress t st1) t)"
    by (simp add: names_relocate_present [OF U1 P1 T'])
  have A2: "set (all_names (relocate n InProgress t st1)) = set (all_names st1)"
    using U1 P1 T' by (rule set_all_names_relocate)
  show "unique_names (relocate n InProgress t (relocate n Pending InProgress st))"
    using U2 by (simp only: st1_def)
  show "located (relocate n InProgress t (relocate n Pending InProgress st)) n = [t]"
    using located_single [OF U2 P2] by (simp only: st1_def)
  show "set (all_names (relocate n InProgress t (relocate n Pending InProgress st))) =
         set (all_names st)"
    using A2 A1 by (simp only: st1_def)
qed

lemma relocate_once:
  assumes U: "unique_names st" and P: "n \<in> set (names st Pending)"
  shows "unique_names (relocate n Pending InProgress st)"
    and "located (relocate n Pending InProgress st) n = [InProgress]"
    and "set (all_names (relocate n Pending InProgress st)) = set (all_names st)"
proof -
  have Q: "Pending \<noteq> InProgress" by simp
  show U1: "unique_names (relocate n Pending InProgress st)"
    using U P Q by (rule unique_names_relocate)
  have "n \<in> set (names (relocate n Pending InProgress st) InProgress)"
    by (simp add: names_relocate_present [OF U P Q])
  with U1 show "located (relocate n Pending InProgress st) n = [InProgress]"
    by (rule located_single)
  show "set (all_names (relocate n Pending InProgress st)) = set (all_names st)"
    using U P Q by (rule set_all_names_relocate)
qed

subsection \<open>The example store\<close>

lemma example_unique: "unique_names (fs example_world)"
  by (simp add: example_world_def example_store_def unique_names_def all_names_def names_def)

lemma example_next: "get_next_task_file (fs example_world) = Some (Pending, ''a.md'')"
  by (simp add: example_world_def example_store_def get_next_task_file_def glob_md_def
      matches_md_def)

lemma example_content: "map_of (fs example_world Pending) ''a.md'' = Some (Text ''first'')"
  by (simp add: example_world_def example_store_def)

subsection \<open>A failing implementation call\<close>

text \<open>
  C3. When the task file was picked from pending and read, and the codex process of the
  implementation call returns a non-zero code, the iteration ends normally with the task in
  failed and in no other directory; no build was started, the only prompt sent is the
  implementation prompt, and there is no sleep before the next iteration.
\<close>

theorem impl_failure_moves_to_failed:
  assumes U: "unique_names (fs w)"
    and N: "get_next_task_file (fs w) = Some (Pending, n)"
    and F: "map_of (fs w Pending) n = Some (Text c)"
    and X: "codex_exit e (codex_calls w) = Some rc" and R: "rc \<noteq> 0"
  shows "\<exists>w'. iteration e w = Inr w'
           \<and> located (fs w') n = [Failed]
           \<and> build_calls w' = build_calls w
           \<and> trace w' = trace w @ [CodexRun (impl_prompt c)]
           \<and> fix_prompts_sent w' = fix_prompts_sent w"
proof -
  define w1 where "w1 = w\<lparr>fs := relocate n Pending InProgress (fs w)\<rparr>"
  define w2 where "w2 = w1\<lparr>codex_calls := Suc (codex_calls w1),
                           trace := trace w1 @ [CodexRun (impl_prompt c)]\<rparr>"
  define w' where "w' = w2\<lparr>fs := relocate n InProgress Failed (fs w2)\<rparr>"
  have C: "run_codex e (impl_prompt c) w1 = Inr (False, w2)"
    using X R by (simp add: run_codex_def w1_def w2_def)
  have I: "iteration e w = Inr w'"
    using iteration_picked [OF U N F, of e] C by (simp add: w1_def [symmetric] w'_def)
  have P: "n \<in> set (names (fs w) Pending)" using F by (rule map_of_names)
  have S: "fs w' = relocate n InProgress Failed (relocate n Pending InProgress (fs w))"
    by (simp add: w'_def w2_def w1_def)
  have "located (fs w') n = [Failed]"
    unfolding S using U P by (rule relocate_twice(2)) simp
  moreover have "build_calls w' = build_calls w"
    by (simp add: w'_def w2_def w1_def)
  moreover have "trace w' = trace w @ [CodexRun (impl_prompt c)]"
    by (simp add: w'_def w2_def w1_def)
  moreover have "fix_prompts_sent w' = fix_prompts_sent w"
    by (simp add: w'_def w2_def w1_def fix_prompts_sent_def)
  ultimately show ?thesis using I by blast
qed

theorem impl_failure_moves_to_failed_witness:
  "\<exists>w'. iteration (example_env (\<lambda>i. 1) (\<lambda>i. 0)) example_world = Inr w'
         \<and> located (fs w') ''a.md'' = [Failed]
         \<and> build_calls w' = 0
         \<and> trace w' = [CodexRun (impl_prompt ''first'')]
         \<and> fix_prompts_sent w' = 0"
proof -
  have X: "codex_exit (example_env (\<lambda>i. 1) (\<lambda>i. 0)) (codex_calls example_world) = Some 1"
    by (simp add: example_env_def)
  have Z: "build_calls example_world = 0" "trace example_world = []"
    "fix_prompts_sent example_world = 0"
    by (simp_all add: example_world_def fix_prompts_sent_def)
  show ?thesis
    using impl_failure_moves_to_failed [OF example_unique example_next example_content X]
    by (simp add: Z)
qed

subsection \<open>After a successful implementation call\<close>

lemma iteration_after_impl:
  assumes U: "unique_names (fs w)"
    and N: "get_next_task_file (fs w) = Some (Pending, n)"
    and F: "map_of (fs w Pending) n = Some (Text c)"
    and X: "codex_exit e (codex_calls w) = Some 0"
    and L: "build_fix_loop e 5
              (w\<lparr>fs := relocate n Pending InProgress (fs w),
                 codex_calls := Suc (codex_calls w),
                 trace := trace w @ [CodexRun (impl_prompt c)]\<rparr>) = Inr (b, w3)"
  shows "\<exists>w'. iteration e w = Inr w'
           \<and> located (fs w') n = [if b then Done else Failed]
           \<and> build_calls w' = build_calls w3
           \<and> codex_calls w' = codex_calls w3
           \<and> fix_prompts_sent w' = fix_prompts_sent w3
           \<and> trace w' = trace w3 @ [Sleep 5]"
proof -
  define w1 where "w1 = w\<lparr>fs := relocate n Pending InProgress (fs w)\<rparr>"
  define w2 where "w2 = w\<lparr>fs := relocate n Pending InProgress (fs w),
                 codex_calls := Suc (codex_calls w),
                 trace := trace w @ [CodexRun (impl_prompt c)]\<rparr>"
  define t where "t = (if b then Done else Failed)"
  define w' where "w' = sleep 5 (w3\<lparr>fs := relocate n InProgress t (fs w3)\<rparr>)"
  have C: "run_codex e (impl_prompt c) w1 = Inr (True, w2)"
    using X by (simp add: run_codex_def w1_def w2_def)
  have L': "build_fix_loop e 5 w2 = Inr (b, w3)"
    using L by (simp only: w2_def)
  have I: "iteration e w = Inr w'"
    using iteration_picked [OF U N F, of e] C L'
    by (simp add: w1_def [symmetric] w'_def t_def)
  have "fs w3 = fs w2" using L' by (rule build_fix_loop_fs(1))
  then have S: "fs w' = relocate n InProgress t (relocate n Pending InProgress (fs w))"
    by (simp add: w'_def w2_def)
  have P: "n \<in> set (names (fs w) Pending)" using F by (rule map_of_names)
  have T: "t \<noteq> InProgress" by (simp add: t_def)
  have "located (fs w') n = [t]"
    unfolding S using U P T by (rule relocate_twice(2))
  moreover have "build_calls w' = build_calls w3" "codex_calls w' = codex_calls w3"
    "fix_prompts_sent w' = fix_prompts_sent w3" "trace w' = trace w3 @ [Sleep 5]"
    by (simp_all add: w'_def sleep_def fix_prompts_sent_def)
  ultimately show ?thesis using I unfolding t_def by blast
qed

text \<open>
  C4. When the implementation call succeeds and the first build returns exit code 0, the
  retry loop is left at once: one build was started and no other, no fix prompt was sent, and
  the task ends in done and in no other directory.
\<close>

theorem first_build_success_moves_to_done:
  assumes U: "unique_names (fs w)"
    and N: "get_next_task_file (fs w) = Some (Pending, n)"
    and F: "map_of (fs w Pending) n = Some (Text c)"
    and X: "codex_exit e (codex_calls w) = Some 0"
    and B: "build_result e (build_calls w) = Some (0, out, err)"
  shows "\<exists>w'. iteration e w = Inr w'
           \<and> located (fs w') n = [Done]
           \<and> build_calls w' = build_calls w + 1
           \<and> fix_prompts_sent w' = fix_prompts_sent w
           \<and> trace w' = trace w @ [CodexRun (impl_prompt c), BuildRun, Sleep 5]"
proof -
  define w2 where "w2 = w\<lparr>fs := relocate n Pending InProgress (fs w),
                 codex_calls := Suc (codex_calls w),
                 trace := trace w @ [CodexRun (impl_prompt c)]\<rparr>"
  define w3 where "w3 = w2\<lparr>build_calls := Suc (build_calls w2), trace := trace w2 @ [BuildRun]\<rparr>"
  have "build_result e (build_calls w2) = Some (0, out, err)"
    using B by (simp add: w2_def)
  then have "build_fix_loop e (Suc 4) w2 = Inr (True, w3)"
    unfolding w3_def by (rule build_fix_loop_success)
  then have L: "build_fix_loop e 5 w2 = Inr (True, w3)"
    by (simp only: eval_nat_numeral)
  from iteration_after_impl [OF U N F X L [unfolded w2_def]]
  obtain w' where w': "iteration e w = Inr w'" "located (fs w') n = [Done]"
    "build_calls w' = build_calls w3" "fix_prompts_sent w' = fix_prompts_sent w3"
    "trace w' = trace w3 @ [Sleep 5]"
    by auto
  have "build_calls w3 = build_calls w + 1" "fix_prompts_sent w3 = fix_prompts_sent w"
    "trace w3 @ [Sleep 5] = trace w @ [CodexRun (impl_prompt c), BuildRun, Sleep 5]"
    by (simp_all add: w3_def w2_def fix_prompts_sent_def)
  with w' show ?thesis by auto
qed

theorem first_build_success_moves_to_done_witness:
  "\<exists>w'. iteration (example_env (\<lambda>i. 0) (\<lambda>i. 0)) example_world = Inr w'
         \<and> located (fs w') ''a.md'' = [Done]
         \<and> build_calls w' = 1
         \<and> fix_prompts_sent w' = 0
         \<and> trace w' = [CodexRun (impl_prompt ''first''), BuildRun, Sleep 5]"
proof -
  have X: "codex_exit (example_env (\<lambda>i. 0) (\<lambda>i. 0)) (codex_calls example_world) = Some 0"
    by (simp add: example_env_def)
  have B: "build_result (example_env (\<lambda>i. 0) (\<lambda>i. 0)) (build_calls example_world) =
      Some (0, ''out'', ''err'')"
    by (simp add: example_env_def)
  have Z: "build_calls example_world = 0" "trace example_world = []"
    "fix_prompts_sent example_world = 0"
    by (simp_all add: example_world_def fix_prompts_sent_def)
  show ?thesis
    using first_build_success_moves_to_done
      [OF example_unique example_next example_content X B]
    by (simp add: Z)
qed

text \<open>
  C1. When the implementation call succeeds, the first m builds return a non-zero code and
  the fix calls that follow them succeed, then: for m below 5 and a build number m + 1 that
  returns 0, the task ends in done after m + 1 builds and m fix prompts; for m = 5 the task
  ends in failed after 5 builds and 5 fix prompts, and no sixth build is started. With
  m = 4 and m = 5 these are the two runs of the specification.
\<close>

theorem fix_prompt_per_failed_build:
  assumes U: "unique_names (fs w)"
    and N: "get_next_task_file (fs w) = Some (Pending, n)"
    and F: "map_of (fs w Pending) n = Some (Text c)"
    and X: "codex_exit e (codex_calls w) = Some 0"
    and M: "m \<le> 5"
    and FX: "\<forall>i<m. codex_exit e (Suc (codex_calls w) + i) = Some 0"
    and FB: "\<forall>i<m. \<exists>c out err. build_result e (build_calls w + i) = Some (c, out, err) \<and> c \<noteq> 0"
    and OK: "m < 5 \<longrightarrow> (\<exists>out err. build_result e (build_calls w + m) = Some (0, out, err))"
  shows "\<exists>w'. iteration e w = Inr w'
           \<and> fix_prompts_sent w' = fix_prompts_sent w + m
           \<and> build_calls w' = build_calls w + (if m < 5 then m + 1 else 5)
           \<and> located (fs w') n = [if m < 5 then Done else Failed]"
proof -
  define w2 where "w2 = w\<lparr>fs := relocate n Pending InProgress (fs w),
                 codex_calls := Suc (codex_calls w),
                 trace := trace w @ [CodexRun (impl_prompt c)]\<rparr>"
  have w2: "codex_calls w2 = Suc (codex_calls w)" "build_calls w2 = build_calls w"
    "fix_prompts_sent w2 = fix_prompts_sent w"
    by (simp_all add: w2_def fix_prompts_sent_def)
  have FB2: "\<forall>i<m. \<exists>c out err. build_result e (build_calls w2 + i) = Some (c, out, err) \<and> c \<noteq> 0"
    using FB by (simp only: w2(2))
  have FX2: "\<forall>i<m. codex_exit e (codex_calls w2 + i) = Some 0"
    using FX by (simp only: w2(1))
  from build_fix_loop_failures [OF M FB2 FX2] obtain v where v:
    "build_fix_loop e 5 w2 = build_fix_loop e (5 - m) v"
    "build_calls v = build_calls w + m" "fix_prompts_sent v = fix_prompts_sent w + m"
    using w2 by auto
  show ?thesis
  proof (cases "m < 5")
    case True
    with OK obtain out err where "build_result e (build_calls w + m) = Some (0, out, err)"
      by blast
    then have B: "build_result e (build_calls v) = Some (0, out, err)"
      by (simp only: v(2))
    define v' where "v' = v\<lparr>build_calls := Suc (build_calls v), trace := trace v @ [BuildRun]\<rparr>"
    from True have "5 - m = Suc (4 - m)" by simp
    with build_fix_loop_success [OF B, of "4 - m"]
    have "build_fix_loop e (5 - m) v = Inr (True, v')"
      by (simp only: v'_def)
    with v(1) have L: "build_fix_loop e 5 w2 = Inr (True, v')" by simp
    from iteration_after_impl [OF U N F X L [unfolded w2_def]]
    obtain w' where w': "iteration e w = Inr w'" "located (fs w') n = [Done]"
      "build_calls w' = build_calls v'" "fix_prompts_sent w' = fix_prompts_sent v'"
      by auto
    have "build_calls v' = build_calls w + (m + 1)" "fix_prompts_sent v' = fix_prompts_sent w + m"
      using v(2,3) by (simp_all add: v'_def fix_prompts_sent_def)
    with w' True show ?thesis by auto
  next
    case False
    with M have m: "m = 5" by simp
    with v(1) have L: "build_fix_loop e 5 w2 = Inr (False, v)" by simp
    from iteration_after_impl [OF U N F X L [unfolded w2_def]]
    obtain w' where w': "iteration e w = Inr w'" "located (fs w') n = [Failed]"
      "build_calls w' = build_calls v" "fix_prompts_sent w' = fix_prompts_sent v"
      by auto
    with v(2,3) m show ?thesis by auto
  qed
qed

theorem fix_prompt_per_failed_build_witness:
  "(\<exists>w'. iteration (example_env (\<lambda>i. 0) (\<lambda>i. if i < 4 then 1 else 0)) example_world = Inr w'
         \<and> fix_prompts_sent w' = 4 \<and> build_calls w' = 5
         \<and> located (fs w') ''a.md'' = [Done])
   \<and> (\<exists>w'. iteration (example_env (\<lambda>i. 0) (\<lambda>i. 1)) example_world = Inr w'
         \<and> fix_prompts_sent w' = 5 \<and> build_calls w' = 5
         \<and> located (fs w') ''a.md'' = [Failed])"
proof -
  have Z: "build_calls example_world = 0" "codex_calls example_world = 0"
    "fix_prompts_sent example_world = 0"
    by (simp_all add: example_world_def fix_prompts_sent_def)
  have A: "\<exists>w'. iteration (example_env (\<lambda>i. 0) (\<lambda>i. if i < 4 then 1 else 0)) example_world = Inr w'
         \<and> fix_prompts_sent w' = 4 \<and> build_calls w' = 5
         \<and> located (fs w') ''a.md'' = [Done]"
    using fix_prompt_per_failed_build
      [OF example_unique example_next example_content,
        of "example_env (\<lambda>i. 0) (\<lambda>i. if i < 4 then 1 else 0)" 4]
    by (simp add: Z example_env_def)
  have B: "\<exists>w'. iteration (example_env (\<lambda>i. 0) (\<lambda>i. 1)) example_world = Inr w'
         \<and> fix_prompts_sent w' = 5 \<and> build_calls w' = 5
         \<and> located (fs w') ''a.md'' = [Failed]"
    using fix_prompt_per_failed_build
      [OF example_unique example_next example_content, of "example_env (\<lambda>i. 0) (\<lambda>i. 1)" 5]
    by (simp add: Z example_env_def)
  from A B show ?thesis by (rule conjI)
qed

text \<open>
  C5. When the implementation call succeeds, the builds of attempts 1 to j + 1 return a
  non-zero code, the fix calls of attempts 1 to j succeed and the fix call of attempt j + 1
  (one of the five attempts) returns failure, the loop is left at once: j + 1 builds were
  started and j + 1 fix prompts sent, none after the failed one, and the task ends in failed
  and in no other directory, as it does after five failed attempts.
\<close>

theorem fix_failure_abandons_retries:
  assumes U: "unique_names (fs w)"
    and N: "get_next_task_file (fs w) = Some (Pending, n)"
    and F: "map_of (fs w Pending) n = Some (Text c)"
    and X: "codex_exit e (codex_calls w) = Some 0"
    and J: "j < 5"
    and FB: "\<forall>i<Suc j. \<exists>c out err. build_result e (build_calls w + i) = Some (c, out, err) \<and> c \<noteq> 0"
    and FX: "\<forall>i<j. codex_exit e (Suc (codex_calls w) + i) = Some 0"
    and FF: "codex_exit e (Suc (codex_calls w) + j) = Some rc" and R: "rc \<noteq> 0"
  shows "\<exists>w'. iteration e w = Inr w'
           \<and> located (fs w') n = [Failed]
           \<and> build_calls w' = build_calls w + (j + 1)
           \<and> fix_prompts_sent w' = fix_prompts_sent w + (j + 1)
           \<and> codex_calls w' = codex_calls w + (j + 2)"
proof -
  define w2 where "w2 = w\<lparr>fs := relocate n Pending InProgress (fs w),
                 codex_calls := Suc (codex_calls w),
                 trace := trace w @ [CodexRun (impl_prompt c)]\<rparr>"
  have w2: "codex_calls w2 = Suc (codex_calls w)" "build_calls w2 = build_calls w"
    "fix_prompts_sent w2 = fix_prompts_sent w"
    by (simp_all add: w2_def fix_prompts_sent_def)
  have FB2: "\<forall>i<j. \<exists>c out err. build_result e (build_calls w2 + i) = Some (c, out, err) \<and> c \<noteq> 0"
    using FB by (simp add: w2(2))
  have FX2: "\<forall>i<j. codex_exit e (codex_calls w2 + i) = Some 0"
    using FX by (simp only: w2(1))
  from J have J': "j \<le> 5" by simp
  from build_fix_loop_failures [OF J' FB2 FX2] obtain v where v:
    "build_fix_loop e 5 w2 = build_fix_loop e (5 - j) v"
    "build_calls v = build_calls w + j" "fix_prompts_sent v = fix_prompts_sent w + j"
    "codex_calls v = Suc (codex_calls w) + j"
    using w2 by auto
  from FB [rule_format, of j] obtain bc out err
    where "build_result e (build_calls w + j) = Some (bc, out, err)" and bc: "bc \<noteq> 0"
    by auto
  then have B: "build_result e (build_calls v) = Some (bc, out, err)"
    by (simp only: v(2))
  have C: "codex_exit e (codex_calls v) = Some rc"
    using FF by (simp only: v(4))
  define v' where "v' = v\<lparr>build_calls := Suc (build_calls v), codex_calls := Suc (codex_calls v),
                   trace := trace v @ [BuildRun, CodexRun (fix_prompt (out @ err))]\<rparr>"
  from J have "5 - j = Suc (4 - j)" by simp
  with build_fix_loop_fix_failed [OF B bc C R, of "4 - j"]
  have "build_fix_loop e (5 - j) v = Inr (False, v')"
    by (simp only: v'_def)
  with v(1) have L: "build_fix_loop e 5 w2 = Inr (False, v')" by simp
  from iteration_after_impl [OF U N F X L [unfolded w2_def]]
  obtain w' where w': "iteration e w = Inr w'" "located (fs w') n = [Failed]"
    "build_calls w' = build_calls v'" "fix_prompts_sent w' = fix_prompts_sent v'"
    "codex_calls w' = codex_calls v'"
    by auto
  have "build_calls v' = build_calls w + (j + 1)"
    "fix_prompts_sent v' = fix_prompts_sent w + (j + 1)"
    "codex_calls v' = codex_calls w + (j + 2)"
    using v(2,3,4) by (simp_all add: v'_def fix_prompts_sent_def)
  with w' show ?thesis by auto
qed

theorem fix_failure_abandons_retries_witness:
  "\<exists>w'. iteration (example_env (\<lambda>i. if i = 3 then 7 else 0) (\<lambda>i. 1)) example_world = Inr w'
         \<and> located (fs w') ''a.md'' = [Failed]
         \<and> build_calls w' = 3
         \<and> fix_prompts_sent w' = 3
         \<and> codex_calls w' = 4"
proof -
  have Z: "build_calls example_world = 0" "codex_calls example_world = 0"
    "fix_prompts_sent example_world = 0"
    by (simp_all add: example_world_def fix_prompts_sent_def)
  show ?thesis
    using fix_failure_abandons_retries
      [OF example_unique example_next example_content,
        of "example_env (\<lambda>i. if i = 3 then 7 else 0) (\<lambda>i. 1)" 2 7]
    by (simp add: Z example_env_def)
qed

subsection \<open>Which files are tasks\<close>

lemma matches_md_suffix: "matches_md m \<longleftrightarrow> suffix ''.md'' m"
proof
  assume "matches_md m"
  then have "m = take (length m - 3) m @ ''.md''"
    by (metis append_take_drop_id matches_md_def)
  then show "suffix ''.md'' m" by (rule suffixI)
next
  assume "suffix ''.md'' m"
  then obtain zs where "m = zs @ ''.md''" by (rule suffixE)
  then show "matches_md m" by (simp add: matches_md_def)
qed

lemma iteration_idle:
  "get_next_task_file (fs w) = None \<Longrightarrow> iteration e w = Inr (sleep 300 w)"
  by (simp add: iteration_def)

text \<open>
  C10. Only a file whose name ends in \<open>.md\<close> is ever returned. When no name in pending ends
  in \<open>.md\<close>, whatever else the directory holds, there is no next task and the iteration does
  what it does on an empty directory: it sleeps 300 seconds and touches nothing else.
\<close>

theorem only_md_files_are_tasks:
  "(\<forall>p. get_next_task_file (fs w) = Some p \<longrightarrow>
        snd p \<in> set (names (fs w) Pending) \<and> suffix ''.md'' (snd p))
   \<and> ((\<forall>m \<in> set (names (fs w) Pending). \<not> suffix ''.md'' m) \<longrightarrow>
        get_next_task_file (fs w) = None
        \<and> iteration e w = Inr (w\<lparr>trace := trace w @ [Sleep 300]\<rparr>))"
proof (intro conjI allI impI)
  fix p assume "get_next_task_file (fs w) = Some p"
  then show "snd p \<in> set (names (fs w) Pending)" and "suffix ''.md'' (snd p)"
    by (simp_all add: get_next_task_file_Some matches_md_suffix [symmetric])
next
  assume "\<forall>m \<in> set (names (fs w) Pending). \<not> suffix ''.md'' m"
  then show N: "get_next_task_file (fs w) = None"
    by (simp add: get_next_task_file_None matches_md_suffix)
  then show "iteration e w = Inr (w\<lparr>trace := trace w @ [Sleep 300]\<rparr>)"
    by (simp add: iteration_idle sleep_def)
qed

theorem only_md_files_are_tasks_witness:
  "get_next_task_file (fs example_world) = Some (Pending, ''a.md'')
   \<and> suffix ''.md'' ''a.md''
   \<and> names (fs notes_only_world) Pending = [''notes.txt'']
   \<and> get_next_task_file (fs notes_only_world) = None
   \<and> iteration quiet_env notes_only_world = Inr (notes_only_world\<lparr>trace := [Sleep 300]\<rparr>)"
proof -
  have A: "names (fs notes_only_world) Pending = [''notes.txt'']"
    by (simp add: notes_only_world_def names_def)
  have B: "\<not> suffix ''.md'' ''notes.txt''"
    by (simp add: matches_md_suffix [symmetric] matches_md_def)
  have C: "trace notes_only_world = []"
    by (simp add: notes_only_world_def)
  from only_md_files_are_tasks [of example_world quiet_env]
  have "suffix ''.md'' ''a.md''"
    by (simp add: example_next)
  moreover from only_md_files_are_tasks [of notes_only_world quiet_env]
  have "get_next_task_file (fs notes_only_world) = None
    \<and> iteration quiet_env notes_only_world = Inr (notes_only_world\<lparr>trace := [Sleep 300]\<rparr>)"
    by (simp add: A B C)
  ultimately show ?thesis using A example_next by simp
qed

text \<open>
  C7, as the code has it. The next task is the file in pending whose name is the first, in
  lexicographic order, among the names that end in \<open>.md\<close>; there is none exactly when no
  name in pending ends in \<open>.md\<close>, as in an empty directory, and then the iteration only
  sleeps 300 seconds and raises nothing.
\<close>

theorem next_pending_first_md:
  "(get_next_task_file (fs w) = None \<longleftrightarrow>
      (\<forall>m \<in> set (names (fs w) Pending). \<not> suffix ''.md'' m))
   \<and> (\<forall>p. get_next_task_file (fs w) = Some p \<longrightarrow>
        fst p = Pending \<and> snd p \<in> set (names (fs w) Pending) \<and> suffix ''.md'' (snd p)
        \<and> (\<forall>m \<in> set (names (fs w) Pending). suffix ''.md'' m \<longrightarrow> snd p \<le> m))
   \<and> (fs w Pending = [] \<longrightarrow> get_next_task_file (fs w) = None)
   \<and> (get_next_task_file (fs w) = None \<longrightarrow> iteration e w = Inr (sleep 300 w))"
proof (intro conjI allI impI ballI)
  show "get_next_task_file (fs w) = None \<longleftrightarrow>
      (\<forall>m \<in> set (names (fs w) Pending). \<not> suffix ''.md'' m)"
    by (simp add: get_next_task_file_None matches_md_suffix)
next
  fix p assume S: "get_next_task_file (fs w) = Some p"
  then show "fst p = Pending" "snd p \<in> set (names (fs w) Pending)" "suffix ''.md'' (snd p)"
    by (simp_all add: get_next_task_file_Some matches_md_suffix [symmetric])
  fix m assume "m \<in> set (names (fs w) Pending)" "suffix ''.md'' m"
  then show "snd p \<le> m"
    using get_next_task_file_Some(4) [OF S, of m] by (simp add: matches_md_suffix)
next
  assume "fs w Pending = []"
  then show "get_next_task_file (fs w) = None"
    by (simp add: get_next_task_file_None names_def)
next
  assume "get_next_task_file (fs w) = None"
  then show "iteration e w = Inr (sleep 300 w)" by (rule iteration_idle)
qed

theorem next_pending_first_md_witness:
  "get_next_task_file (fs example_world) = Some (Pending, ''a.md'')
   \<and> names (fs example_world) Pending = [''b.md'', ''a.md'', ''notes.txt'']
   \<and> ''a.md'' \<le> ''b.md''
   \<and> get_next_task_file (fs notes_only_world) = None
   \<and> iteration quiet_env notes_only_world = Inr (sleep 300 notes_only_world)"
proof -
  have A: "names (fs example_world) Pending = [''b.md'', ''a.md'', ''notes.txt'']"
    by (simp add: example_world_def example_store_def names_def)
  have B: "names (fs notes_only_world) Pending = [''notes.txt'']"
    by (simp add: notes_only_world_def names_def)
  have C: "\<not> suffix ''.md'' ''notes.txt''" "suffix ''.md'' ''b.md''"
    by (simp_all add: matches_md_suffix [symmetric] matches_md_def)
  from next_pending_first_md [of example_world quiet_env]
  have "''a.md'' \<le> ''b.md''"
    by (simp add: example_next A C)
  moreover from next_pending_first_md [of notes_only_world quiet_env]
  have "get_next_task_file (fs notes_only_world) = None
    \<and> iteration quiet_env notes_only_world = Inr (sleep 300 notes_only_world)"
    by (simp add: B C)
  ultimately show ?thesis using A example_next by simp
qed

text \<open>
  C7 as stated fails: a pending directory that holds only \<open>notes.txt\<close> is not empty, and
  there is no next task.
\<close>

theorem next_pending_none_on_nonempty:
  "names (fs notes_only_world) Pending = [''notes.txt'']
   \<and> get_next_task_file (fs notes_only_world) = None"
  by (simp add: notes_only_world_def names_def get_next_task_file_def glob_md_def matches_md_def)

subsection \<open>The store across an iteration\<close>

lemma iteration_picked_fs:
  assumes U: "unique_names (fs w)"
    and N: "get_next_task_file (fs w) = Some (Pending, n)"
    and F: "map_of (fs w Pending) n = Some f"
    and R: "iteration e w = Inr w' \<or> iteration e w = Inl (x, w')"
  shows "fs w' = relocate n Pending InProgress (fs w) \<or>
     (\<exists>t. t \<noteq> InProgress \<and>
        fs w' = relocate n InProgress t (relocate n Pending InProgress (fs w)))"
proof -
  define w1 where "w1 = w\<lparr>fs := relocate n Pending InProgress (fs w)\<rparr>"
  have w1: "fs w1 = relocate n Pending InProgress (fs w)" by (simp add: w1_def)
  note I = iteration_picked [OF U N F, of e, folded w1_def]
  show ?thesis
  proof (cases f)
    case Unreadable
    with I have "iteration e w = Inl (ReadError, w1)" by simp
    with R have "w' = w1" by auto
    with w1 show ?thesis by simp
  next
    case (Text c)
    show ?thesis
    proof (cases "run_codex e (impl_prompt c) w1")
      case (Inl a)
      obtain x0 w0 where a: "a = (x0, w0)" by (cases a)
      with Inl have "w0 = w1" using run_codex_fs(2) [of e "impl_prompt c" w1 x0 w0] by simp
      with I Text Inl a have "iteration e w = Inl (x0, w1)" by simp
      with R have "w' = w1" by auto
      with w1 show ?thesis by simp
    next
      case (Inr s)
      obtain ok w2 where s: "s = (ok, w2)" by (cases s)
      with Inr have w2: "fs w2 = fs w1"
        using run_codex_fs(1) [of e "impl_prompt c" w1 ok w2] by simp
      show ?thesis
      proof (cases ok)
        case False
        with I Text Inr s
        have "iteration e w = Inr (w2\<lparr>fs := relocate n InProgress Failed (fs w2)\<rparr>)"
          by simp
        with R have "w' = w2\<lparr>fs := relocate n InProgress Failed (fs w2)\<rparr>" by auto
        then have "fs w' = relocate n InProgress Failed (relocate n Pending InProgress (fs w))"
          using w2 w1 by simp
        then show ?thesis by blast
      next
        case True
        show ?thesis
        proof (cases "build_fix_loop e 5 w2")
          case (Inl a)
          obtain x0 w3 where a: "a = (x0, w3)" by (cases a)
          with Inl have "fs w3 = fs w2" using build_fix_loop_fs(2) [of e 5 w2 x0 w3] by simp
          moreover from I Text \<open>run_codex e (impl_prompt c) w1 = Inr s\<close> s True Inl a
          have "iteration e w = Inl (x0, w3)" by simp
          with R have "w' = w3" by auto
          ultimately show ?thesis using w2 w1 by simp
        next
          case (Inr r)
          obtain b w3 where r: "r = (b, w3)" by (cases r)
          with Inr have w3: "fs w3 = fs w2" using build_fix_loop_fs(1) [of e 5 w2 b w3] by simp
          define t where "t = (if b then Done else Failed)"
          from I Text \<open>run_codex e (impl_prompt c) w1 = Inr s\<close> s True Inr r
          have "iteration e w = Inr (sleep 5 (w3\<lparr>fs := relocate n InProgress t (fs w3)\<rparr>))"
            by (simp add: t_def)
          with R have "w' = sleep 5 (w3\<lparr>fs := relocate n InProgress t (fs w3)\<rparr>)" by auto
          then have "fs w' = relocate n InProgress t (relocate n Pending InProgress (fs w))"
            using w3 w2 w1 by simp
          moreover have "t \<noteq> InProgress" by (simp add: t_def)
          ultimately show ?thesis by blast
        qed
      qed
    qed
  qed
qed

lemma iteration_store:
  assumes U: "unique_names (fs w)"
    and R: "iteration e w = Inr w' \<or> iteration e w = Inl (x, w')"
  shows "unique_names (fs w')" and "set (all_names (fs w')) = set (all_names (fs w))"
proof -
  have "unique_names (fs w') \<and> set (all_names (fs w')) = set (all_names (fs w))"
  proof (cases "get_next_task_file (fs w)")
    case None
    then have "iteration e w = Inr (sleep 300 w)" by (rule iteration_idle)
    with R have "w' = sleep 300 w" by auto
    with U show ?thesis by simp
  next
    case (Some p)
    then have p: "fst p = Pending" and P: "snd p \<in> set (names (fs w) Pending)"
      by (simp_all add: get_next_task_file_Some)
    define n where "n = snd p"
    from p have N: "get_next_task_file (fs w) = Some (Pending, n)"
      using Some by (cases p) (simp add: n_def)
    from P obtain f where F: "map_of (fs w Pending) n = Some f"
      unfolding n_def using names_map_of by blast
    from P have P': "n \<in> set (names (fs w) Pending)" by (simp add: n_def)
    from iteration_picked_fs [OF U N F R]
    show ?thesis
    proof
      assume "fs w' = relocate n Pending InProgress (fs w)"
      then show ?thesis
        using relocate_once(1,3) [OF U P'] by simp
    next
      assume "\<exists>t. t \<noteq> InProgress \<and>
        fs w' = relocate n InProgress t (relocate n Pending InProgress (fs w))"
      then obtain t where "t \<noteq> InProgress"
        "fs w' = relocate n InProgress t (relocate n Pending InProgress (fs w))" by blast
      then show ?thesis
        using relocate_twice(1,3) [OF U P', of t] by simp
    qed
  qed
  then show "unique_names (fs w')" and "set (all_names (fs w')) = set (all_names (fs w))"
    by simp_all
qed

lemma iterations_store:
  assumes "unique_names (fs w)"
    and "iterations e k w = Inr w' \<or> iterations e k w = Inl (x, w')"
  shows "unique_names (fs w') \<and> set (all_names (fs w')) = set (all_names (fs w))"
  using assms
proof (induction k arbitrary: w)
  case 0
  then show ?case by auto
next
  case (Suc k)
  show ?case
  proof (cases "iteration e w")
    case (Inl a)
    obtain x0 w0 where a: "a = (x0, w0)" by (cases a)
    with Inl Suc.prems(2) have "w' = w0" by auto
    with Inl a have "iteration e w = Inr w' \<or> iteration e w = Inl (x0, w')" by simp
    with Suc.prems(1) show ?thesis
      using iteration_store [of w e w' x0] by simp
  next
    case (Inr v)
    then have "iteration e w = Inr v \<or> iteration e w = Inl (x, v)" by simp
    with Suc.prems(1)
    have V: "unique_names (fs v)" "set (all_names (fs v)) = set (all_names (fs w))"
      using iteration_store [of w e v x] by simp_all
    from Inr Suc.prems(2)
    have "iterations e k v = Inr w' \<or> iterations e k v = Inl (x, w')" by simp
    with Suc.IH [OF V(1)] V(2) show ?thesis by simp
  qed
qed

lemma exactly_one_directory:
  assumes "unique_names st" and "m \<in> set (all_names st)"
  shows "\<exists>q. located st m = [q]"
proof -
  from assms(2) obtain q where "m \<in> set (names st q)"
    by (auto simp: set_all_names)
  with assms(1) have "located st m = [q]" by (rule located_single)
  then show ?thesis by blast
qed

lemma example_iteration:
  "\<exists>w'. iteration quiet_env example_world = Inr w' \<and> located (fs w') ''a.md'' = [Done]"
proof -
  have X: "codex_exit quiet_env (codex_calls example_world) = Some 0"
    by (simp add: quiet_env_def example_env_def)
  define w2 where "w2 = example_world\<lparr>fs := relocate ''a.md'' Pending InProgress (fs example_world),
                 codex_calls := Suc (codex_calls example_world),
                 trace := trace example_world @ [CodexRun (impl_prompt ''first'')]\<rparr>"
  have "build_result quiet_env (build_calls w2) = Some (0, ''out'', ''err'')"
    by (simp add: quiet_env_def example_env_def)
  then have "build_fix_loop quiet_env (Suc 4) w2 =
      Inr (True, w2\<lparr>build_calls := Suc (build_calls w2), trace := trace w2 @ [BuildRun]\<rparr>)"
    by (rule build_fix_loop_success)
  then have L: "build_fix_loop quiet_env 5 w2 =
      Inr (True, w2\<lparr>build_calls := Suc (build_calls w2), trace := trace w2 @ [BuildRun]\<rparr>)"
    by (simp only: eval_nat_numeral)
  from iteration_after_impl [OF example_unique example_next example_content X L [unfolded w2_def]]
  show ?thesis by auto
qed

lemma map_of_remove_name [simp]: "map_of (remove_name n l) n = None"
  by (simp add: remove_name_def map_of_eq_None_iff image_iff)

lemma move_task_name:
  assumes M: "move_task e src target w = Inr (p, w')"
  shows "p = (target, snd src)"
    and "map_of (fs w' target) (snd src) = map_of (fs w (fst src)) (snd src)"
    and "map_of (fs w (fst src)) (snd src) \<noteq> None"
proof -
  from M obtain f where F: "map_of (fs w (fst src)) (snd src) = Some f"
    by (cases "map_of (fs w (fst src)) (snd src)") (auto simp: move_task_def rename_def)
  then show "map_of (fs w (fst src)) (snd src) \<noteq> None" by simp
  from M show "p = (target, snd src)"
    by (auto simp: move_task_def Let_def split: sum.splits)
  show "map_of (fs w' target) (snd src) = map_of (fs w (fst src)) (snd src)"
  proof (cases "(target, snd src) = src")
    case True
    with M F have "w' = w" by (simp add: move_task_def rename_def)
    moreover from True have "target = fst src" by (cases src) simp
    ultimately show ?thesis by simp
  next
    case False
    with M F have "fs w' target =
        remove_name (snd src)
          (((fs w)(fst src := remove_name (snd src) (fs w (fst src)))) target) @ [(snd src, f)]"
      by (auto simp: move_task_def rename_def Let_def split: if_splits)
    then have "map_of (fs w' target) (snd src) = Some f"
      by (simp add: map_add_def)
    with F show ?thesis by simp
  qed
qed

text \<open>
  C8. A move that succeeds returns the target directory with the name of the source, and the
  file it finds there under that name is the file that was under it in the source
  directory. On a store with unique file names the moved file is then in the target
  directory only, a move that raises leaves the store as it was, and the names stay unique
  and the same: every file of the store is in exactly one of the four directories after
  each move, and in whatever state the worker loop is after any number of iterations, still
  running or ended by an exception.
\<close>

theorem moves_preserve_names:
  "(\<forall>src target p w'. move_task e src target w = Inr (p, w') \<longrightarrow>
       p = (target, snd src)
       \<and> map_of (fs w (fst src)) (snd src) \<noteq> None
       \<and> map_of (fs w' target) (snd src) = map_of (fs w (fst src)) (snd src))
   \<and> (unique_names (fs w) \<longrightarrow>
        (\<forall>src target p w'. move_task e src target w = Inr (p, w') \<longrightarrow>
            located (fs w') (snd src) = [target]
            \<and> unique_names (fs w')
            \<and> set (all_names (fs w')) = set (all_names (fs w)))
        \<and> (\<forall>src target x w'. move_task e src target w = Inl (x, w') \<longrightarrow> w' = w)
        \<and> (\<forall>k x w'. main_loop e k w = Inr w' \<or> main_loop e k w = Inl (x, w') \<longrightarrow>
            unique_names (fs w')
            \<and> set (all_names (fs w')) = set (all_names (fs w))
            \<and> (\<forall>m \<in> set (all_names (fs w)). \<exists>q. located (fs w') m = [q])))"
proof (intro conjI allI impI)
  fix src :: path and target p w'
  assume M: "move_task e src target w = Inr (p, w')"
  then show "p = (target, snd src)"
    and "map_of (fs w (fst src)) (snd src) \<noteq> None"
    and "map_of (fs w' target) (snd src) = map_of (fs w (fst src)) (snd src)"
    by (rule move_task_name)+
next
  fix src :: path and target p w'
  assume U: "unique_names (fs w)"
  assume M: "move_task e src target w = Inr (p, w')"
  obtain q n where src: "src = (q, n)" by (cases src)
  note G = move_task_general [OF U, of e q n target]
  from M src G obtain f where F: "map_of (fs w q) n = Some f"
    by (cases "map_of (fs w q) n") auto
  have P: "n \<in> set (names (fs w) q)" using F by (rule map_of_names)
  from M src G F
  have w': "w' = (if target = q then w else w\<lparr>fs := relocate n q target (fs w)\<rparr>)"
    by simp
  have "located (fs w') n = [target]
        \<and> unique_names (fs w')
        \<and> set (all_names (fs w')) = set (all_names (fs w))"
  proof (cases "target = q")
    case True
    with w' U P show ?thesis by (simp add: located_single)
  next
    case False
    then have Q: "q \<noteq> target" by simp
    from False w' have S: "fs w' = relocate n q target (fs w)" by simp
    have U': "unique_names (fs w')"
      unfolding S using U P Q by (rule unique_names_relocate)
    have "n \<in> set (names (fs w') target)"
      unfolding S by (simp add: names_relocate_present [OF U P Q])
    with U' have "located (fs w') n = [target]" by (rule located_single)
    moreover have "set (all_names (fs w')) = set (all_names (fs w))"
      unfolding S using U P Q by (rule set_all_names_relocate)
    ultimately show ?thesis using U' by simp
  qed
  with src show "located (fs w') (snd src) = [target]"
    and "unique_names (fs w')"
    and "set (all_names (fs w')) = set (all_names (fs w))"
    by simp_all
next
  fix src :: path and target x w'
  assume U: "unique_names (fs w)"
  assume M: "move_task e src target w = Inl (x, w')"
  obtain q n where src: "src = (q, n)" by (cases src)
  from M src move_task_general [OF U, of e q n target] show "w' = w"
    by (cases "map_of (fs w q) n") auto
next
  fix k x w'
  assume U: "unique_names (fs w)"
  assume "main_loop e k w = Inr w' \<or> main_loop e k w = Inl (x, w')"
  then have "iterations e k w = Inr w' \<or> iterations e k w = Inl (x, w')"
    by (simp add: main_loop_def ensure_task_dirs_def)
  with U have I: "unique_names (fs w') \<and> set (all_names (fs w')) = set (all_names (fs w))"
    by (rule iterations_store)
  then show "unique_names (fs w')" and "set (all_names (fs w')) = set (all_names (fs w))"
    by simp_all
  show "\<forall>m \<in> set (all_names (fs w)). \<exists>q. located (fs w') m = [q]"
  proof
    fix m assume "m \<in> set (all_names (fs w))"
    with I have "m \<in> set (all_names (fs w'))" by simp
    with I show "\<exists>q. located (fs w') m = [q]"
      using exactly_one_directory [of "fs w'" m] by simp
  qed
qed

theorem moves_preserve_names_witness:
  "(\<exists>w'. move_task quiet_env (Pending, ''b.md'') Failed example_world = Inr ((Failed, ''b.md''), w')
         \<and> map_of (fs w' Failed) ''b.md'' = Some (Text ''second'')
         \<and> located (fs w') ''b.md'' = [Failed])
   \<and> (\<exists>w'. main_loop quiet_env 1 example_world = Inr w'
         \<and> unique_names (fs w')
         \<and> set (all_names (fs w')) = {''a.md'', ''b.md'', ''notes.txt''}
         \<and> located (fs w') ''a.md'' = [Done]
         \<and> (\<exists>q. located (fs w') ''b.md'' = [q]))"
proof -
  note T = moves_preserve_names [of quiet_env example_world]
  have B: "map_of (fs example_world Pending) ''b.md'' = Some (Text ''second'')"
    by (simp add: example_world_def example_store_def)
  have A: "set (all_names (fs example_world)) = {''a.md'', ''b.md'', ''notes.txt''}"
    by (auto simp: example_world_def example_store_def all_names_def names_def)
  from move_task_relocate [OF example_unique B, of Failed quiet_env]
  obtain w1 where M: "move_task quiet_env (Pending, ''b.md'') Failed example_world =
      Inr ((Failed, ''b.md''), w1)"
    by auto
  from T example_unique M B have "map_of (fs w1 Failed) ''b.md'' = Some (Text ''second'')
         \<and> located (fs w1) ''b.md'' = [Failed]"
    by fastforce
  with M have first: "\<exists>w'. move_task quiet_env (Pending, ''b.md'') Failed example_world =
         Inr ((Failed, ''b.md''), w')
         \<and> map_of (fs w' Failed) ''b.md'' = Some (Text ''second'')
         \<and> located (fs w') ''b.md'' = [Failed]"
    by blast
  from example_iteration obtain w2
    where I: "iteration quiet_env example_world = Inr w2" "located (fs w2) ''a.md'' = [Done]"
    by blast
  then have L: "main_loop quiet_env 1 example_world = Inr w2"
    by (simp add: main_loop_def ensure_task_dirs_def)
  with T example_unique have "unique_names (fs w2)
      \<and> set (all_names (fs w2)) = set (all_names (fs example_world))
      \<and> (\<forall>m \<in> set (all_names (fs example_world)). \<exists>q. located (fs w2) m = [q])"
    by blast
  with A have "unique_names (fs w2)
      \<and> set (all_names (fs w2)) = {''a.md'', ''b.md'', ''notes.txt''}
      \<and> (\<exists>q. located (fs w2) ''b.md'' = [q])"
    by simp
  with L I(2) have second: "\<exists>w'. main_loop quiet_env 1 example_world = Inr w'
         \<and> unique_names (fs w')
         \<and> set (all_names (fs w')) = {''a.md'', ''b.md'', ''notes.txt''}
         \<and> located (fs w') ''a.md'' = [Done]
         \<and> (\<exists>q. located (fs w') ''b.md'' = [q])"
    by blast
  from first second show ?thesis by (rule conjI)
qed

subsection \<open>Failures that the loop absorbs, and those that end it\<close>

lemma build_fix_loop_total:
  assumes PC: "\<forall>i. codex_exit e i \<noteq> None" and PB: "\<forall>i. build_result e i \<noteq> None"
  shows "\<exists>b v. build_fix_loop e k w = Inr (b, v)
           \<and> (b \<longrightarrow> build_calls w < build_calls v
                 \<and> (\<exists>out err. build_result e (build_calls v - 1) = Some (0, out, err)))"
proof (induction k arbitrary: w)
  case 0
  show ?case by auto
next
  case (Suc k)
  from PB obtain r where "build_result e (build_calls w) = Some r" by blast
  moreover obtain c out err where "r = (c, out, err)" by (cases r)
  ultimately have B: "build_result e (build_calls w) = Some (c, out, err)" by simp
  from PC obtain rc where X: "codex_exit e (codex_calls w) = Some rc" by blast
  show ?case
  proof (cases "c = 0")
    case True
    with B have B0: "build_result e (build_calls w) = Some (0, out, err)" by simp
    then have "build_fix_loop e (Suc k) w =
        Inr (True, w\<lparr>build_calls := Suc (build_calls w), trace := trace w @ [BuildRun]\<rparr>)"
      by (rule build_fix_loop_success)
    moreover have "build_result e
        (build_calls (w\<lparr>build_calls := Suc (build_calls w), trace := trace w @ [BuildRun]\<rparr>) - 1)
        = Some (0, out, err)"
      using B True by simp
    ultimately show ?thesis by auto
  next
    case False
    show ?thesis
    proof (cases "rc = 0")
      case True
      define u where "u = w\<lparr>build_calls := Suc (build_calls w), codex_calls := Suc (codex_calls w),
          trace := trace w @ [BuildRun, CodexRun (fix_prompt (out @ err)), Sleep 2]\<rparr>"
      from X True have X0: "codex_exit e (codex_calls w) = Some 0" by simp
      have R: "build_fix_loop e (Suc k) w = build_fix_loop e k u"
        unfolding u_def using B False X0 by (rule build_fix_loop_round)
      from Suc.IH [of u] obtain b v where v: "build_fix_loop e k u = Inr (b, v)"
        "b \<longrightarrow> build_calls u < build_calls v
             \<and> (\<exists>out err. build_result e (build_calls v - 1) = Some (0, out, err))"
        by blast
      have "build_calls w < build_calls u" by (simp add: u_def)
      with v(2) have "b \<longrightarrow> build_calls w < build_calls v
             \<and> (\<exists>out err. build_result e (build_calls v - 1) = Some (0, out, err))"
        by auto
      with R v(1) show ?thesis by auto
    next
      case rcF: False
      from build_fix_loop_fix_failed [OF B False X rcF, of k] show ?thesis by auto
    qed
  qed
qed

lemma iteration_impl_failed:
  assumes U: "unique_names (fs w)"
    and N: "get_next_task_file (fs w) = Some (Pending, n)"
    and F: "map_of (fs w Pending) n = Some (Text c)"
    and X: "codex_exit e (codex_calls w) = Some rc" and R: "rc \<noteq> 0"
  shows "\<exists>w'. iteration e w = Inr w' \<and> located (fs w') n = [Failed]"
proof -
  define w1 where "w1 = w\<lparr>fs := relocate n Pending InProgress (fs w)\<rparr>"
  define w2 where "w2 = w1\<lparr>codex_calls := Suc (codex_calls w1),
                           trace := trace w1 @ [CodexRun (impl_prompt c)]\<rparr>"
  have C: "run_codex e (impl_prompt c) w1 = Inr (False, w2)"
    using X R by (simp add: run_codex_def w1_def w2_def)
  have I: "iteration e w = Inr (w2\<lparr>fs := relocate n InProgress Failed (fs w2)\<rparr>)"
    using iteration_picked [OF U N F, of e] C by (simp add: w1_def [symmetric])
  have P: "n \<in> set (names (fs w) Pending)" using F by (rule map_of_names)
  have "located (relocate n InProgress Failed (relocate n Pending InProgress (fs w))) n = [Failed]"
    using U P by (rule relocate_twice(2)) simp
  then have "located (fs (w2\<lparr>fs := relocate n InProgress Failed (fs w2)\<rparr>)) n = [Failed]"
    by (simp add: w2_def w1_def)
  with I show ?thesis by blast
qed

lemma iteration_fix_failed:
  assumes U: "unique_names (fs w)"
    and N: "get_next_task_file (fs w) = Some (Pending, n)"
    and F: "map_of (fs w Pending) n = Some (Text c)"
    and X: "codex_exit e (codex_calls w) = Some 0"
    and J: "j < 5"
    and FB: "\<forall>i<Suc j. \<exists>c out err. build_result e (build_calls w + i) = Some (c, out, err) \<and> c \<noteq> 0"
    and FX: "\<forall>i<j. codex_exit e (Suc (codex_calls w) + i) = Some 0"
    and FF: "codex_exit e (Suc (codex_calls w) + j) = Some rc" and R: "rc \<noteq> 0"
  shows "\<exists>w'. iteration e w = Inr w' \<and> located (fs w') n = [Failed]"
proof -
  define w2 where "w2 = w\<lparr>fs := relocate n Pending InProgress (fs w),
                 codex_calls := Suc (codex_calls w),
                 trace := trace w @ [CodexRun (impl_prompt c)]\<rparr>"
  have w2: "codex_calls w2 = Suc (codex_calls w)" "build_calls w2 = build_calls w"
    by (simp_all add: w2_def)
  have FB2: "\<forall>i<j. \<exists>c out err. build_result e (build_calls w2 + i) = Some (c, out, err) \<and> c \<noteq> 0"
    using FB by (simp add: w2(2))
  have FX2: "\<forall>i<j. codex_exit e (codex_calls w2 + i) = Some 0"
    using FX by (simp only: w2(1))
  from J have J': "j \<le> 5" by simp
  from build_fix_loop_failures [OF J' FB2 FX2] obtain v where v:
    "build_fix_loop e 5 w2 = build_fix_loop e (5 - j) v"
    "build_calls v = build_calls w + j" "codex_calls v = Suc (codex_calls w) + j"
    using w2 by auto
  from FB [rule_format, of j] obtain bc out err
    where "build_result e (build_calls w + j) = Some (bc, out, err)" and bc: "bc \<noteq> 0"
    by auto
  then have B: "build_result e (build_calls v) = Some (bc, out, err)"
    by (simp only: v(2))
  have C: "codex_exit e (codex_calls v) = Some rc"
    using FF by (simp only: v(3))
  define v' where "v' = v\<lparr>build_calls := Suc (build_calls v), codex_calls := Suc (codex_calls v),
                   trace := trace v @ [BuildRun, CodexRun (fix_prompt (out @ err))]\<rparr>"
  from J have "5 - j = Suc (4 - j)" by simp
  with build_fix_loop_fix_failed [OF B bc C R, of "4 - j"]
  have "build_fix_loop e (5 - j) v = Inr (False, v')"
    by (simp only: v'_def)
  with v(1) have L: "build_fix_loop e 5 w2 = Inr (False, v')" by simp
  from iteration_after_impl [OF U N F X L [unfolded w2_def]]
  show ?thesis by auto
qed

lemma iteration_builds_exhausted:
  assumes U: "unique_names (fs w)"
    and N: "get_next_task_file (fs w) = Some (Pending, n)"
    and F: "map_of (fs w Pending) n = Some (Text c)"
    and X: "codex_exit e (codex_calls w) = Some 0"
    and FB: "\<forall>i<5. \<exists>c out err. build_result e (build_calls w + i) = Some (c, out, err) \<and> c \<noteq> 0"
    and FX: "\<forall>i<5. codex_exit e (Suc (codex_calls w) + i) = Some 0"
  shows "\<exists>w'. iteration e w = Inr w' \<and> located (fs w') n = [Failed]"
proof -
  define w2 where "w2 = w\<lparr>fs := relocate n Pending InProgress (fs w),
                 codex_calls := Suc (codex_calls w),
                 trace := trace w @ [CodexRun (impl_prompt c)]\<rparr>"
  have w2: "codex_calls w2 = Suc (codex_calls w)" "build_calls w2 = build_calls w"
    by (simp_all add: w2_def)
  have FB2: "\<forall>i<5. \<exists>c out err. build_result e (build_calls w2 + i) = Some (c, out, err) \<and> c \<noteq> 0"
    using FB by (simp only: w2(2))
  have FX2: "\<forall>i<5. codex_exit e (codex_calls w2 + i) = Some 0"
    using FX by (simp only: w2(1))
  have "(5::nat) \<le> 5" by simp
  from build_fix_loop_failures [OF this FB2 FX2] obtain v where
    "build_fix_loop e 5 w2 = build_fix_loop e (5 - 5) v"
    by auto
  then have L: "build_fix_loop e 5 w2 = Inr (False, v)" by simp
  from iteration_after_impl [OF U N F X L [unfolded w2_def]]
  show ?thesis by auto
qed

lemma main_loop_continues:
  "iteration e w = Inr w' \<Longrightarrow> main_loop e (Suc k) w = iterations e k w'"
  by (simp add: main_loop_def ensure_task_dirs_def)

lemma unreadable_unique: "unique_names (fs unreadable_world)"
  by (simp add: unreadable_world_def unique_names_def all_names_def names_def)

lemma unreadable_next: "get_next_task_file (fs unreadable_world) = Some (Pending, ''a.md'')"
  by (simp add: unreadable_world_def get_next_task_file_def glob_md_def matches_md_def)

lemma unreadable_content: "map_of (fs unreadable_world Pending) ''a.md'' = Some Unreadable"
  by (simp add: unreadable_world_def)

text \<open>
  C2, as the code has it. Let the next task be picked on a store with unique file names.
  When the task file is read, every failure that the agent or the build reports sends the
  task to failed and the loop goes on with the next iteration: an implementation call that
  returns failure, a fix call that returns failure on one of the five attempts, and five
  builds that fail with every fix call succeeding. Whatever the processes return, as long as
  they start, the iteration returns, the loop goes on, and the task is in failed unless the
  last build that was started returned 0. When the task file cannot be read, nothing catches
  the exception: it ends the loop, and the task stays in in-progress.
\<close>

theorem agent_failures_absorbed_read_errors_not:
  assumes U: "unique_names (fs w)"
    and N: "get_next_task_file (fs w) = Some (Pending, n)"
    and F: "map_of (fs w Pending) n = Some f"
  shows "(\<forall>c. f = Text c \<longrightarrow>
            (\<forall>rc. codex_exit e (codex_calls w) = Some rc \<and> rc \<noteq> 0 \<longrightarrow>
               (\<exists>w'. iteration e w = Inr w'
                 \<and> (\<forall>k. main_loop e (Suc k) w = iterations e k w')
                 \<and> located (fs w') n = [Failed]))
          \<and> (\<forall>j rc. codex_exit e (codex_calls w) = Some 0
                 \<and> j < 5
                 \<and> (\<forall>i<Suc j. \<exists>bc out err.
                     build_result e (build_calls w + i) = Some (bc, out, err) \<and> bc \<noteq> 0)
                 \<and> (\<forall>i<j. codex_exit e (Suc (codex_calls w) + i) = Some 0)
                 \<and> codex_exit e (Suc (codex_calls w) + j) = Some rc \<and> rc \<noteq> 0 \<longrightarrow>
               (\<exists>w'. iteration e w = Inr w'
                 \<and> (\<forall>k. main_loop e (Suc k) w = iterations e k w')
                 \<and> located (fs w') n = [Failed]))
          \<and> (codex_exit e (codex_calls w) = Some 0
                 \<and> (\<forall>i<5. \<exists>bc out err.
                     build_result e (build_calls w + i) = Some (bc, out, err) \<and> bc \<noteq> 0)
                 \<and> (\<forall>i<5. codex_exit e (Suc (codex_calls w) + i) = Some 0) \<longrightarrow>
               (\<exists>w'. iteration e w = Inr w'
                 \<and> (\<forall>k. main_loop e (Suc k) w = iterations e k w')
                 \<and> located (fs w') n = [Failed]))
          \<and> ((\<forall>i. codex_exit e i \<noteq> None) \<and> (\<forall>i. build_result e i \<noteq> None) \<longrightarrow>
               (\<exists>w'. iteration e w = Inr w'
                 \<and> (\<forall>k. main_loop e (Suc k) w = iterations e k w')
                 \<and> (located (fs w') n = [Failed]
                    \<or> located (fs w') n = [Done]
                      \<and> build_calls w < build_calls w'
                      \<and> (\<exists>out err. build_result e (build_calls w' - 1) = Some (0, out, err))))))
       \<and> (f = Unreadable \<longrightarrow>
            iteration e w = Inl (ReadError, w\<lparr>fs := relocate n Pending InProgress (fs w)\<rparr>)
            \<and> (\<forall>k. main_loop e (Suc k) w =
                      Inl (ReadError, w\<lparr>fs := relocate n Pending InProgress (fs w)\<rparr>))
            \<and> located (relocate n Pending InProgress (fs w)) n = [InProgress])"
proof (intro conjI allI impI)
  fix c rc
  assume T: "f = Text c" and H: "codex_exit e (codex_calls w) = Some rc \<and> rc \<noteq> 0"
  from F T have F': "map_of (fs w Pending) n = Some (Text c)" by simp
  from H have "codex_exit e (codex_calls w) = Some rc" "rc \<noteq> 0" by simp_all
  from iteration_impl_failed [OF U N F' this]
  obtain w' where "iteration e w = Inr w'" "located (fs w') n = [Failed]" by blast
  then show "(\<exists>w'. iteration e w = Inr w'
                 \<and> (\<forall>k. main_loop e (Suc k) w = iterations e k w')
                 \<and> located (fs w') n = [Failed])"
    using main_loop_continues [of e w w'] by blast
next
  fix c j rc
  assume T: "f = Text c"
    and H: "codex_exit e (codex_calls w) = Some 0
                 \<and> j < 5
                 \<and> (\<forall>i<Suc j. \<exists>bc out err.
                     build_result e (build_calls w + i) = Some (bc, out, err) \<and> bc \<noteq> 0)
                 \<and> (\<forall>i<j. codex_exit e (Suc (codex_calls w) + i) = Some 0)
                 \<and> codex_exit e (Suc (codex_calls w) + j) = Some rc \<and> rc \<noteq> 0"
  from F T have F': "map_of (fs w Pending) n = Some (Text c)" by simp
  from H have "codex_exit e (codex_calls w) = Some 0" "j < 5"
    "(\<forall>i<Suc j. \<exists>bc out err.
                     build_result e (build_calls w + i) = Some (bc, out, err) \<and> bc \<noteq> 0)"
    "\<forall>i<j. codex_exit e (Suc (codex_calls w) + i) = Some 0"
    "codex_exit e (Suc (codex_calls w) + j) = Some rc" "rc \<noteq> 0"
    by blast+
  from iteration_fix_failed [OF U N F' this]
  obtain w' where "iteration e w = Inr w'" "located (fs w') n = [Failed]" by blast
  then show "(\<exists>w'. iteration e w = Inr w'
                 \<and> (\<forall>k. main_loop e (Suc k) w = iterations e k w')
                 \<and> located (fs w') n = [Failed])"
    using main_loop_continues [of e w w'] by blast
next
  fix c
  assume T: "f = Text c"
    and H: "codex_exit e (codex_calls w) = Some 0
                 \<and> (\<forall>i<5. \<exists>bc out err.
                     build_result e (build_calls w + i) = Some (bc, out, err) \<and> bc \<noteq> 0)
                 \<and> (\<forall>i<5. codex_exit e (Suc (codex_calls w) + i) = Some 0)"
  from F T have F': "map_of (fs w Pending) n = Some (Text c)" by simp
  from H have "codex_exit e (codex_calls w) = Some 0"
    "(\<forall>i<5. \<exists>bc out err.
                     build_result e (build_calls w + i) = Some (bc, out, err) \<and> bc \<noteq> 0)"
    "\<forall>i<5. codex_exit e (Suc (codex_calls w) + i) = Some 0"
    by blast+
  from iteration_builds_exhausted [OF U N F' this]
  obtain w' where "iteration e w = Inr w'" "located (fs w') n = [Failed]" by blast
  then show "(\<exists>w'. iteration e w = Inr w'
                 \<and> (\<forall>k. main_loop e (Suc k) w = iterations e k w')
                 \<and> located (fs w') n = [Failed])"
    using main_loop_continues [of e w w'] by blast
next
  fix c
  assume T: "f = Text c"
    and P: "(\<forall>i. codex_exit e i \<noteq> None) \<and> (\<forall>i. build_result e i \<noteq> None)"
  from F T have F': "map_of (fs w Pending) n = Some (Text c)" by simp
  from P have PC: "\<forall>i. codex_exit e i \<noteq> None" and PB: "\<forall>i. build_result e i \<noteq> None"
    by simp_all
  from PC obtain rc where X: "codex_exit e (codex_calls w) = Some rc" by blast
  have "\<exists>w'. iteration e w = Inr w'
               \<and> (located (fs w') n = [Failed]
                  \<or> located (fs w') n = [Done]
                    \<and> build_calls w < build_calls w'
                    \<and> (\<exists>out err. build_result e (build_calls w' - 1) = Some (0, out, err)))"
  proof (cases "rc = 0")
    case False
    from iteration_impl_failed [OF U N F' X False] show ?thesis by blast
  next
    case True
    with X have X0: "codex_exit e (codex_calls w) = Some 0" by simp
    define w2 where "w2 = w\<lparr>fs := relocate n Pending InProgress (fs w),
                 codex_calls := Suc (codex_calls w),
                 trace := trace w @ [CodexRun (impl_prompt c)]\<rparr>"
    from build_fix_loop_total [OF PC PB, of 5 w2] obtain b v
      where L: "build_fix_loop e 5 w2 = Inr (b, v)"
        and D: "b \<longrightarrow> build_calls w2 < build_calls v
                 \<and> (\<exists>out err. build_result e (build_calls v - 1) = Some (0, out, err))"
      by blast
    from iteration_after_impl [OF U N F' X0 L [unfolded w2_def]]
    obtain w' where w': "iteration e w = Inr w'"
      "located (fs w') n = [if b then Done else Failed]" "build_calls w' = build_calls v"
      by blast
    have "build_calls w2 = build_calls w" by (simp add: w2_def)
    with D w'(2,3) have "located (fs w') n = [Failed]
                  \<or> located (fs w') n = [Done]
                    \<and> build_calls w < build_calls w'
                    \<and> (\<exists>out err. build_result e (build_calls w' - 1) = Some (0, out, err))"
      by (cases b) simp_all
    with w'(1) show ?thesis by blast
  qed
  then obtain w' where w': "iteration e w = Inr w'"
    "located (fs w') n = [Failed]
                  \<or> located (fs w') n = [Done]
                    \<and> build_calls w < build_calls w'
                    \<and> (\<exists>out err. build_result e (build_calls w' - 1) = Some (0, out, err))"
    by blast
  from w'(1) have "\<forall>k. main_loop e (Suc k) w = iterations e k w'"
    by (simp add: main_loop_continues)
  with w' show "\<exists>w'. iteration e w = Inr w'
               \<and> (\<forall>k. main_loop e (Suc k) w = iterations e k w')
               \<and> (located (fs w') n = [Failed]
                  \<or> located (fs w') n = [Done]
                    \<and> build_calls w < build_calls w'
                    \<and> (\<exists>out err. build_result e (build_calls w' - 1) = Some (0, out, err)))"
    by blast
next
  assume T: "f = Unreadable"
  with F have F': "map_of (fs w Pending) n = Some Unreadable" by simp
  from iteration_picked [OF U N F', of e]
  show I: "iteration e w = Inl (ReadError, w\<lparr>fs := relocate n Pending InProgress (fs w)\<rparr>)"
    by simp
  fix k
  from I show "main_loop e (Suc k) w =
      Inl (ReadError, w\<lparr>fs := relocate n Pending InProgress (fs w)\<rparr>)"
    by (simp add: main_loop_def ensure_task_dirs_def)
next
  assume "f = Unreadable"
  have "n \<in> set (names (fs w) Pending)" using F by (rule map_of_names)
  with U show "located (relocate n Pending InProgress (fs w)) n = [InProgress]"
    by (rule relocate_once(2))
qed

theorem agent_failures_absorbed_read_errors_not_witness:
  "(\<exists>w'. iteration (example_env (\<lambda>i. 1) (\<lambda>i. 0)) example_world = Inr w'
         \<and> main_loop (example_env (\<lambda>i. 1) (\<lambda>i. 0)) 1 example_world = Inr w'
         \<and> located (fs w') ''a.md'' = [Failed])
   \<and> (\<exists>w'. iteration (example_env (\<lambda>i. if i = 3 then 7 else 0) (\<lambda>i. 1)) example_world = Inr w'
         \<and> main_loop (example_env (\<lambda>i. if i = 3 then 7 else 0) (\<lambda>i. 1)) 1 example_world = Inr w'
         \<and> located (fs w') ''a.md'' = [Failed])
   \<and> (\<exists>w'. iteration (example_env (\<lambda>i. 0) (\<lambda>i. 1)) example_world = Inr w'
         \<and> main_loop (example_env (\<lambda>i. 0) (\<lambda>i. 1)) 1 example_world = Inr w'
         \<and> located (fs w') ''a.md'' = [Failed])
   \<and> main_loop quiet_env 2 unreadable_world =
        Inl (ReadError,
             unreadable_world\<lparr>fs := relocate ''a.md'' Pending InProgress (fs unreadable_world)\<rparr>)
   \<and> located (relocate ''a.md'' Pending InProgress (fs unreadable_world)) ''a.md'' = [InProgress]"
proof -
  have Z: "build_calls example_world = 0" "codex_calls example_world = 0"
    by (simp_all add: example_world_def)
  have one: "\<exists>w'. iteration (example_env (\<lambda>i. 1) (\<lambda>i. 0)) example_world = Inr w'
         \<and> main_loop (example_env (\<lambda>i. 1) (\<lambda>i. 0)) 1 example_world = Inr w'
         \<and> located (fs w') ''a.md'' = [Failed]"
  proof -
    note T = agent_failures_absorbed_read_errors_not
      [OF example_unique example_next example_content, of "example_env (\<lambda>i. 1) (\<lambda>i. 0)",
        THEN conjunct1, rule_format, OF refl, THEN conjunct1, rule_format]
    from T have "\<exists>w'. iteration (example_env (\<lambda>i. 1) (\<lambda>i. 0)) example_world = Inr w'
         \<and> (\<forall>k. main_loop (example_env (\<lambda>i. 1) (\<lambda>i. 0)) (Suc k) example_world = iterations (example_env (\<lambda>i. 1) (\<lambda>i. 0)) k w')
         \<and> located (fs w') ''a.md'' = [Failed]"
      by (simp add: example_env_def Z)
    then obtain w' where w': "iteration (example_env (\<lambda>i. 1) (\<lambda>i. 0)) example_world = Inr w'"
      "\<forall>k. main_loop (example_env (\<lambda>i. 1) (\<lambda>i. 0)) (Suc k) example_world = iterations (example_env (\<lambda>i. 1) (\<lambda>i. 0)) k w'"
      "located (fs w') ''a.md'' = [Failed]"
      by blast
    from w'(2) have "main_loop (example_env (\<lambda>i. 1) (\<lambda>i. 0)) (Suc 0) example_world = iterations (example_env (\<lambda>i. 1) (\<lambda>i. 0)) 0 w'"
      by (rule spec)
    then have "main_loop (example_env (\<lambda>i. 1) (\<lambda>i. 0)) 1 example_world = Inr w'" by simp
    with w'(1,3) show ?thesis by blast
  qed
  have two: "\<exists>w'. iteration (example_env (\<lambda>i. if i = 3 then 7 else 0) (\<lambda>i. 1)) example_world = Inr w'
         \<and> main_loop (example_env (\<lambda>i. if i = 3 then 7 else 0) (\<lambda>i. 1)) 1 example_world = Inr w'
         \<and> located (fs w') ''a.md'' = [Failed]"
  proof -
    note T = agent_failures_absorbed_read_errors_not
      [OF example_unique example_next example_content, of "example_env (\<lambda>i. if i = 3 then 7 else 0) (\<lambda>i. 1)",
        THEN conjunct1, rule_format, OF refl, THEN conjunct2, THEN conjunct1, rule_format, of 2 7]
    from T have "\<exists>w'. iteration (example_env (\<lambda>i. if i = 3 then 7 else 0) (\<lambda>i. 1)) example_world = Inr w'
         \<and> (\<forall>k. main_loop (example_env (\<lambda>i. if i = 3 then 7 else 0) (\<lambda>i. 1)) (Suc k) example_world = iterations (example_env (\<lambda>i. if i = 3 then 7 else 0) (\<lambda>i. 1)) k w')
         \<and> located (fs w') ''a.md'' = [Failed]"
      by (simp add: example_env_def Z)
    then obtain w' where w': "iteration (example_env (\<lambda>i. if i = 3 then 7 else 0) (\<lambda>i. 1)) example_world = Inr w'"
      "\<forall>k. main_loop (example_env (\<lambda>i. if i = 3 then 7 else 0) (\<lambda>i. 1)) (Suc k) example_world = iterations (example_env (\<lambda>i. if i = 3 then 7 else 0) (\<lambda>i. 1)) k w'"
      "located (fs w') ''a.md'' = [Failed]"
      by blast
    from w'(2) have "main_loop (example_env (\<lambda>i. if i = 3 then 7 else 0) (\<lambda>i. 1)) (Suc 0) example_world = iterations (example_env (\<lambda>i. if i = 3 then 7 else 0) (\<lambda>i. 1)) 0 w'"
      by (rule spec)
    then have "main_loop (example_env (\<lambda>i. if i = 3 then 7 else 0) (\<lambda>i. 1)) 1 example_world = Inr w'" by simp
    with w'(1,3) show ?thesis by blast
  qed
  have three: "\<exists>w'. iteration (example_env (\<lambda>i. 0) (\<lambda>i. 1)) example_world = Inr w'
         \<and> main_loop (example_env (\<lambda>i. 0) (\<lambda>i. 1)) 1 example_world = Inr w'
         \<and> located (fs w') ''a.md'' = [Failed]"
  proof -
    note T = agent_failures_absorbed_read_errors_not
      [OF example_unique example_next example_content, of "example_env (\<lambda>i. 0) (\<lambda>i. 1)",
        THEN conjunct1, rule_format, OF refl, THEN conjunct2, THEN conjunct2, THEN conjunct1, rule_format]
    from T have "\<exists>w'. iteration (example_env (\<lambda>i. 0) (\<lambda>i. 1)) example_world = Inr w'
         \<and> (\<forall>k. main_loop (example_env (\<lambda>i. 0) (\<lambda>i. 1)) (Suc k) example_world = iterations (example_env (\<lambda>i. 0) (\<lambda>i. 1)) k w')
         \<and> located (fs w') ''a.md'' = [Failed]"
      by (simp add: example_env_def Z)
    then obtain w' where w': "iteration (example_env (\<lambda>i. 0) (\<lambda>i. 1)) example_world = Inr w'"
      "\<forall>k. main_loop (example_env (\<lambda>i. 0) (\<lambda>i. 1)) (Suc k) example_world = iterations (example_env (\<lambda>i. 0) (\<lambda>i. 1)) k w'"
      "located (fs w') ''a.md'' = [Failed]"
      by blast
    from w'(2) have "main_loop (example_env (\<lambda>i. 0) (\<lambda>i. 1)) (Suc 0) example_world = iterations (example_env (\<lambda>i. 0) (\<lambda>i. 1)) 0 w'"
      by (rule spec)
    then have "main_loop (example_env (\<lambda>i. 0) (\<lambda>i. 1)) 1 example_world = Inr w'" by simp
    with w'(1,3) show ?thesis by blast
  qed
  from agent_failures_absorbed_read_errors_not
    [OF unreadable_unique unreadable_next unreadable_content, of quiet_env]
  have "(\<forall>k. main_loop quiet_env (Suc k) unreadable_world =
        Inl (ReadError,
             unreadable_world\<lparr>fs := relocate ''a.md'' Pending InProgress (fs unreadable_world)\<rparr>))
     \<and> located (relocate ''a.md'' Pending InProgress (fs unreadable_world)) ''a.md'' = [InProgress]"
    by simp
  then have "main_loop quiet_env (Suc 1) unreadable_world =
        Inl (ReadError,
             unreadable_world\<lparr>fs := relocate ''a.md'' Pending InProgress (fs unreadable_world)\<rparr>)
     \<and> located (relocate ''a.md'' Pending InProgress (fs unreadable_world)) ''a.md'' = [InProgress]"
    by blast
  then have four: "main_loop quiet_env 2 unreadable_world =
        Inl (ReadError,
             unreadable_world\<lparr>fs := relocate ''a.md'' Pending InProgress (fs unreadable_world)\<rparr>)
     \<and> located (relocate ''a.md'' Pending InProgress (fs unreadable_world)) ''a.md'' = [InProgress]"
    by (simp only: Suc_1)
  from one two three four show ?thesis by blast
qed

text \<open>
  C2 as stated fails: with an unreadable task file the worker loop ends with the exception,
  and the task is in in-progress, not in failed.
\<close>

theorem unreadable_task_ends_loop:
  "main_loop quiet_env 1 unreadable_world =
     Inl (ReadError,
          unreadable_world\<lparr>fs := relocate ''a.md'' Pending InProgress (fs unreadable_world)\<rparr>)
   \<and> located (relocate ''a.md'' Pending InProgress (fs unreadable_world)) ''a.md'' = [InProgress]
   \<and> located (relocate ''a.md'' Pending InProgress (fs unreadable_world)) ''a.md'' \<noteq> [Failed]"
proof -
  from iteration_picked [OF unreadable_unique unreadable_next unreadable_content, of quiet_env]
  have "main_loop quiet_env 1 unreadable_world =
     Inl (ReadError,
          unreadable_world\<lparr>fs := relocate ''a.md'' Pending InProgress (fs unreadable_world)\<rparr>)"
    by (simp add: main_loop_def ensure_task_dirs_def)
  moreover have "''a.md'' \<in> set (names (fs unreadable_world) Pending)"
    using unreadable_content by (rule map_of_names)
  with unreadable_unique
  have "located (relocate ''a.md'' Pending InProgress (fs unreadable_world)) ''a.md'' = [InProgress]"
    by (rule relocate_once(2))
  ultimately show ?thesis by simp
qed

subsection \<open>The QA report without a checklist\<close>

text \<open>
  C9, as the code has it. When the checklist file is missing and the language model answers
  the prompt built from the sentinel message, the run does not fail: the checklist text is
  the sentinel, the one prompt sent is the analysis prompt around it, the output directory
  exists afterwards and the output file holds the answer as it came. The file is non-empty
  exactly when the answer is.
\<close>

theorem missing_checklist_report:
  assumes M: "release_qa w = None"
    and A: "model (qa_prompt qa_missing) = Some answer"
  shows "app_invoke model state w =
           Inr (state\<lparr>qa_text := qa_missing, report := answer\<rparr>,
                w\<lparr>llm_inputs := llm_inputs w @ [qa_prompt_head @ qa_missing @ qa_prompt_tail],
                  qa_output_dir := True, qa_decision := Some answer\<rparr>)"
proof -
  have "read_qa state w = Inr (state\<lparr>qa_text := qa_missing\<rparr>)"
    using M by (simp add: read_qa_def)
  moreover have "analyze_qa model (state\<lparr>qa_text := qa_missing\<rparr>) w =
      Inr (state\<lparr>qa_text := qa_missing, report := answer\<rparr>,
           w\<lparr>llm_inputs := llm_inputs w @ [qa_prompt qa_missing]\<rparr>)"
    using A by (simp add: analyze_qa_def)
  ultimately show ?thesis
    by (simp add: app_invoke_def save_report_def qa_prompt_def)
qed

theorem missing_checklist_report_witness:
  "app_invoke verdict_llm initial_state no_checklist_world =
     Inr (\<lparr>qa_text = qa_missing, report = ''FIX BEFORE RELEASE''\<rparr>,
          \<lparr>release_qa = None, qa_output_dir = True,
           qa_decision = Some ''FIX BEFORE RELEASE'',
           llm_inputs = [qa_prompt_head @ qa_missing @ qa_prompt_tail]\<rparr>)"
proof -
  have M: "release_qa no_checklist_world = None" by (simp add: no_checklist_world_def)
  have A: "verdict_llm (qa_prompt qa_missing) = Some ''FIX BEFORE RELEASE''"
    by (simp add: verdict_llm_def)
  from missing_checklist_report [of no_checklist_world verdict_llm "''FIX BEFORE RELEASE''" initial_state, OF M A]
  show ?thesis by (simp add: initial_state_def no_checklist_world_def)
qed

text \<open>
  C9 as stated fails: when the model answers with the empty text, the output file is
  written and is empty.
\<close>

theorem missing_checklist_empty_report:
  "release_qa no_checklist_world = None
   \<and> app_invoke silent_llm initial_state no_checklist_world =
       Inr (\<lparr>qa_text = qa_missing, report = ''''\<rparr>,
            \<lparr>release_qa = None, qa_output_dir = True, qa_decision = Some '''',
             llm_inputs = [qa_prompt qa_missing]\<rparr>)"
  by (simp add: app_invoke_def read_qa_def analyze_qa_def save_report_def Let_def
      silent_llm_def initial_state_def no_checklist_world_def)

end
